theory Spec2Isabelle
  imports Main
begin

section \<open>JavaScript values and the operations the generators use\<close>

text \<open>
  The generators work on the values a YAML decoder returns and build plain objects from
  them. A value is modelled by \<open>js\<close>. An object is the list of its own enumerable
  properties in the order \<^verbatim>\<open>Object.entries\<close> reports them, so each name occurs once in
  the list of a decoded object. A string is the list of its code units; code units above
  255 are not represented. Numbers are the integers; fractions, NaN and the infinities are
  not represented. \<open>Fn\<close> stands for a built-in function object: the only one the
  generators can reach is the inherited method \<^verbatim>\<open>keys\<close> of an array.

  Every exception of the source is a value of \<open>error\<close>; a function that can throw
  returns \<open>error + 'a\<close> with \<open>Inl\<close> for the exception.
\<close>

datatype error = TypeError | ENOENT | YAMLException

datatype js =
    Undefined
  | Null
  | Bool bool
  | Num int
  | Str string
  | Arr "js list"
  | Obj "(string \<times> js) list"
  | Fn

definition bindE :: "error + 'a \<Rightarrow> ('a \<Rightarrow> error + 'b) \<Rightarrow> error + 'b" where
  "bindE m f = (case m of Inl e \<Rightarrow> Inl e | Inr x \<Rightarrow> f x)"

text \<open>\<^verbatim>\<open>xs.map(f)\<close> where \<open>f\<close> may throw: the first exception ends the loop.\<close>

fun mapE :: "('a \<Rightarrow> error + 'b) \<Rightarrow> 'a list \<Rightarrow> error + 'b list" where
  "mapE f [] = Inr []"
| "mapE f (x # xs) = bindE (f x) (\<lambda>y. bindE (mapE f xs) (\<lambda>ys. Inr (y # ys)))"

text \<open>\<^verbatim>\<open>xs.filter(p)\<close> where \<open>p\<close> may throw.\<close>

fun filterE :: "('a \<Rightarrow> error + bool) \<Rightarrow> 'a list \<Rightarrow> error + 'a list" where
  "filterE p [] = Inr []"
| "filterE p (x # xs) =
     bindE (p x) (\<lambda>b. bindE (filterE p xs) (\<lambda>ys. Inr (if b then x # ys else ys)))"

text \<open>Decimal digits of a natural number and of an integer, as \<^verbatim>\<open>String(n)\<close> prints them.\<close>

fun digits :: "nat \<Rightarrow> string" where
  "digits n = (if n < 10 then [char_of (48 + n)] else digits (n div 10) @ [char_of (48 + n mod 10)])"

declare digits.simps [simp del]

definition show_int :: "int \<Rightarrow> string" where
  "show_int i = (if i < 0 then CHR ''-'' # digits (nat (- i)) else digits (nat i))"

text \<open>\<^verbatim>\<open>xs.join(sep)\<close> on strings.\<close>

fun join :: "string \<Rightarrow> string list \<Rightarrow> string" where
  "join sep [] = []"
| "join sep [x] = x"
| "join sep (x # y # ys) = x @ sep @ join sep (y # ys)"

text \<open>
  \<^verbatim>\<open>String(v)\<close>, which a template literal and \<^verbatim>\<open>join\<close> apply to a value. Inside an
  array, \<^verbatim>\<open>undefined\<close> and \<^verbatim>\<open>null\<close> print as the empty string.
\<close>

fun to_string :: "js \<Rightarrow> string" where
  "to_string Undefined = ''undefined''"
| "to_string Null = ''null''"
| "to_string (Bool b) = (if b then ''true'' else ''false'')"
| "to_string (Num i) = show_int i"
| "to_string (Str s) = s"
| "to_string (Arr xs) =
     join '','' (map (\<lambda>x. if x = Undefined \<or> x = Null then [] else to_string x) xs)"
| "to_string (Obj fs) = ''[object Object]''"
| "to_string Fn = ''function keys() { [native code] }''"

text \<open>\<^verbatim>\<open>!!v\<close>.\<close>

fun truthy :: "js \<Rightarrow> bool" where
  "truthy Undefined = False"
| "truthy Null = False"
| "truthy (Bool b) = b"
| "truthy (Num i) = (i \<noteq> 0)"
| "truthy (Str s) = (s \<noteq> [])"
| "truthy (Arr xs) = True"
| "truthy (Obj fs) = True"
| "truthy Fn = True"

text \<open>
  \<^verbatim>\<open>v.k\<close> for one of the names the generators read. Reading a property of
  \<^verbatim>\<open>undefined\<close> or \<^verbatim>\<open>null\<close> throws. None of the names is defined on the prototype
  of objects, strings, numbers, booleans or functions, so there the read finds an own
  property or \<^verbatim>\<open>undefined\<close>; an array inherits \<^verbatim>\<open>keys\<close>.
\<close>

fun get :: "js \<Rightarrow> string \<Rightarrow> error + js" where
  "get Undefined k = Inl TypeError"
| "get Null k = Inl TypeError"
| "get (Obj fs) k = (case map_of fs k of None \<Rightarrow> Inr Undefined | Some v \<Rightarrow> Inr v)"
| "get (Arr xs) k = (if k = ''keys'' then Inr Fn else Inr Undefined)"
| "get v k = Inr Undefined"

text \<open>
  \<^verbatim>\<open>k in v\<close> for the one name the generators test, \<^verbatim>\<open>default\<close>, which no
  prototype defines: throws unless \<open>v\<close> is an object (arrays and functions are objects).
\<close>

fun js_in :: "string \<Rightarrow> js \<Rightarrow> error + bool" where
  "js_in k (Obj fs) = Inr (k \<in> fst ` set fs)"
| "js_in k (Arr xs) = Inr False"
| "js_in k Fn = Inr False"
| "js_in k v = Inl TypeError"

text \<open>
  \<^verbatim>\<open>Object.entries(v)\<close>: throws on \<^verbatim>\<open>undefined\<close> and \<^verbatim>\<open>null\<close>; an array and a
  string list their elements under their indices; a number, a boolean and a function
  have no own enumerable property.
\<close>

fun indexed :: "nat \<Rightarrow> js list \<Rightarrow> (string \<times> js) list" where
  "indexed i [] = []"
| "indexed i (x # xs) = (digits i, x) # indexed (Suc i) xs"

fun entries :: "js \<Rightarrow> error + (string \<times> js) list" where
  "entries Undefined = Inl TypeError"
| "entries Null = Inl TypeError"
| "entries (Obj fs) = Inr fs"
| "entries (Arr xs) = Inr (indexed 0 xs)"
| "entries (Str s) = Inr (indexed 0 (map (\<lambda>c. Str [c]) s))"
| "entries v = Inr []"

text \<open>
  \<^verbatim>\<open>Object.fromEntries(es)\<close>: a name that comes again overwrites the value and keeps
  its first place. The generators give it entries in the order of \<^verbatim>\<open>Object.entries\<close>,
  which the new object keeps.
\<close>

fun put :: "string \<Rightarrow> js \<Rightarrow> (string \<times> js) list \<Rightarrow> (string \<times> js) list" where
  "put k v [] = [(k, v)]"
| "put k v ((k', v') # fs) = (if k = k' then (k, v) # fs else (k', v') # put k v fs)"

definition fromEntries :: "(string \<times> js) list \<Rightarrow> js" where
  "fromEntries es = Obj (foldl (\<lambda>fs (k, v). put k v fs) [] es)"

section \<open>Strings and the regular expressions of the source\<close>

text \<open>
  Each regular expression of the source is written out as the string function it
  computes; the comment at each function names the expression. A line terminator is a
  line feed or a carriage return.
\<close>

definition is_line_terminator :: "char \<Rightarrow> bool" where
  "is_line_terminator c = (c = CHR 0x0A \<or> c = CHR 0x0D)"

definition starts_with :: "string \<Rightarrow> string \<Rightarrow> bool" where
  "starts_with p s = (take (length p) s = p)"

text \<open>
  \<open>split_first n s\<close> cuts \<open>s\<close> around the first occurrence of \<open>n\<close>, and
  \<open>split_last n s\<close> around the last one: the text before it and the text after it.
\<close>

fun split_first :: "string \<Rightarrow> string \<Rightarrow> (string \<times> string) option" where
  "split_first n [] = (if n = [] then Some ([], []) else None)"
| "split_first n (c # cs) =
     (if starts_with n (c # cs) then Some ([], drop (length n) (c # cs))
      else case split_first n cs of None \<Rightarrow> None | Some (b, a) \<Rightarrow> Some (c # b, a))"

fun split_last :: "string \<Rightarrow> string \<Rightarrow> (string \<times> string) option" where
  "split_last n [] = (if n = [] then Some ([], []) else None)"
| "split_last n (c # cs) =
     (case split_last n cs of
        Some (b, a) \<Rightarrow> Some (c # b, a)
      | None \<Rightarrow> if starts_with n (c # cs) then Some ([], drop (length n) (c # cs)) else None)"

text \<open>\<^verbatim>\<open>s.split("\n")\<close>.\<close>

fun split_lines :: "string \<Rightarrow> string list" where
  "split_lines [] = [[]]"
| "split_lines (c # cs) =
     (if c = CHR 0x0A then [] # split_lines cs
      else case split_lines cs of l # ls \<Rightarrow> (c # l) # ls | [] \<Rightarrow> [[c]])"

text \<open>\<open>occurs n s\<close>: the text \<open>s\<close> contains \<open>n\<close>.\<close>

definition occurs :: "string \<Rightarrow> string \<Rightarrow> bool" where
  "occurs n s = (\<exists>a b. s = a @ n @ b)"

definition OPEN_SENTINEL :: string where
  "OPEN_SENTINEL = ''{% configuration %}''"

definition CLOSE_SENTINEL :: string where
  "CLOSE_SENTINEL = ''{% endconfiguration %}''"

section \<open>The configuration of one document (class HomeAssistantConfiguration)\<close>

text \<open>The fields \<^verbatim>\<open>this.name\<close>, \<^verbatim>\<open>this.description\<close> and \<^verbatim>\<open>this.source\<close>.\<close>

record HomeAssistantConfiguration =
  this_name :: string
  this_description :: "string option"
  this_source :: string

text \<open>The file system: the text of each file that exists.\<close>

type_synonym fs = "string \<Rightarrow> string option"

definition readFileSync :: "fs \<Rightarrow> string \<Rightarrow> error + string" where
  "readFileSync files path = (case files path of None \<Rightarrow> Inl ENOENT | Some text \<Rightarrow> Inr text)"

text \<open>
  \<^verbatim>\<open>s.replace(/.*{% configuration %}/s, "")\<close>: the greedy \<^verbatim>\<open>.*\<close> runs over line ends,
  so the match starts at the beginning of the text and ends with the last opening
  sentinel. Without an opening sentinel the text is unchanged.
\<close>

definition strip_through_open :: "string \<Rightarrow> string" where
  "strip_through_open s = (case split_last OPEN_SENTINEL s of None \<Rightarrow> s | Some (b, a) \<Rightarrow> a)"

text \<open>
  \<^verbatim>\<open>s.replace(/{% endconfiguration %}.*/s, "")\<close>: the match starts at the first closing
  sentinel and runs to the end of the text. Without a closing sentinel the text is
  unchanged.
\<close>

definition strip_from_close :: "string \<Rightarrow> string" where
  "strip_from_close s = (case split_first CLOSE_SENTINEL s of None \<Rightarrow> s | Some (b, a) \<Rightarrow> b)"

text \<open>
  \<^verbatim>\<open>path.replace(/^.*[/]/, "")\<close>: here \<^verbatim>\<open>.\<close> stops at a line terminator, so the match
  ends with the last slash of the first line of the path.
\<close>

definition strip_directories :: "string \<Rightarrow> string" where
  "strip_directories path =
     (case split_last ''/'' (takeWhile (\<lambda>c. \<not> is_line_terminator c) path) of
        None \<Rightarrow> path
      | Some (b, a) \<Rightarrow> drop (Suc (length b)) path)"

text \<open>
  \<^verbatim>\<open>s.replace(/.mqtt.markdown$/, "")\<close>: the two dots are wildcards for one character that
  is not a line terminator.
\<close>

definition strip_mqtt_markdown :: "string \<Rightarrow> string" where
  "strip_mqtt_markdown s =
     (let n = length s - 14; t = drop n s in
      if 14 \<le> length s \<and> \<not> is_line_terminator (t ! 0) \<and> take 4 (drop 1 t) = ''mqtt''
         \<and> \<not> is_line_terminator (t ! 5) \<and> drop 6 t = ''markdown''
      then take n s else s)"

text \<open>\<^verbatim>\<open>path.replace(".mqtt.markdown", ".markdown")\<close>: the first occurrence only.\<close>

definition alt_path :: "string \<Rightarrow> string" where
  "alt_path path =
     (case split_first ''.mqtt.markdown'' path of
        None \<Rightarrow> path
      | Some (b, a) \<Rightarrow> b @ ''.markdown'' @ a)"

text \<open>
  The white space \<^verbatim>\<open>trim\<close> removes, among the code units up to 255: tab, line feed,
  vertical tab, form feed, carriage return, space and no-break space.
\<close>

definition is_space :: "char \<Rightarrow> bool" where
  "is_space c = (c \<in> set [CHR 0x09, CHR 0x0A, CHR 0x0B, CHR 0x0C, CHR 0x0D, CHR 0x20, CHR 0xA0])"

text \<open>
  The one-line description: the companion document after its last \<^verbatim>\<open>\n---\n\<close>
  (\<^verbatim>\<open>replace(/.*\n---\n/s, "")\<close>), its first line that is not blank.
\<close>

definition first_description_line :: "string \<Rightarrow> string option" where
  "first_description_line altSource =
     (let body = (case split_last ([CHR 0x0A] @ ''---'' @ [CHR 0x0A]) altSource of
                    None \<Rightarrow> altSource | Some (b, a) \<Rightarrow> a)
      in case filter (\<lambda>line. \<exists>c \<in> set line. \<not> is_space c) (split_lines body) of
           [] \<Rightarrow> None
         | line # ls \<Rightarrow> Some line)"

text \<open>
  The constructor. Reading the document itself may throw; a failure to read the companion
  document is caught and leaves the description undefined.
\<close>

definition new_HomeAssistantConfiguration :: "fs \<Rightarrow> string \<Rightarrow> error + HomeAssistantConfiguration" where
  "new_HomeAssistantConfiguration files path =
     bindE (readFileSync files path) (\<lambda>text.
       Inr \<lparr> this_name = strip_mqtt_markdown (strip_directories path),
             this_description = (case readFileSync files (alt_path path) of
                              Inl e \<Rightarrow> None
                            | Inr altSource \<Rightarrow> first_description_line altSource),
             this_source = strip_from_close (strip_through_open text) \<rparr>)"

section \<open>OpenAPI lowering (HomeAssistantConfigurationModel.ts)\<close>

text \<open>
  \<^verbatim>\<open>describe\<close>: the description followed by the default in parentheses, each only
  when truthy, joined by one space.
\<close>

definition describe :: "js \<Rightarrow> error + string" where
  "describe prop =
     bindE (js_in ''default'' prop) (\<lambda>has.
     bindE (if has then get prop ''default'' else Inr (Bool False)) (\<lambda>c.
     bindE (if truthy c
            then bindE (get prop ''default'') (\<lambda>d. Inr (Str (''(Default: '' @ to_string d @ '')'')))
            else Inr Undefined) (\<lambda>def.
     bindE (get prop ''description'') (\<lambda>description.
       Inr (join '' '' (map to_string (filter truthy [description, def])))))))"

text \<open>
  The three mutually recursive lowering functions. \<^verbatim>\<open>toOpenapiObjectPropertyA\<close> is the
  \<^verbatim>\<open>switch\<close> on the type tag; it has no \<^verbatim>\<open>default\<close> branch, so a tag outside its
  cases falls out of the \<^verbatim>\<open>switch\<close> and the function returns \<^verbatim>\<open>undefined\<close>.
\<close>

lemma bindE_cong [fundef_cong]:
  "m = m' \<Longrightarrow> (\<And>x. m' = Inr x \<Longrightarrow> f x = f' x) \<Longrightarrow> bindE m f = bindE m' f'"
  by (auto simp: bindE_def split: sum.splits)

lemma mapE_cong [fundef_cong]:
  "xs = ys \<Longrightarrow> (\<And>x. x \<in> set ys \<Longrightarrow> f x = g x) \<Longrightarrow> mapE f xs = mapE g ys"
  by (induction ys arbitrary: xs) (auto intro: bindE_cong)

lemma size_field: "(k, v) \<in> set fs \<Longrightarrow> size v < size (Obj fs)"
  by (induction fs) auto

lemma size_get: "get p k = Inr v \<Longrightarrow> size v \<le> size p"
  by (cases p) (auto split: option.splits if_splits dest!: map_of_SomeD size_field)

lemma size_indexed: "(k, v) \<in> set (indexed i xs) \<Longrightarrow> v \<in> set xs"
  by (induction xs arbitrary: i) auto

lemma size_child:
  "get p k = Inr ks \<Longrightarrow> entries ks = Inr es \<Longrightarrow> (n, c) \<in> set es \<Longrightarrow> size c < size p"
proof (cases p)
  case (Obj fs)
  assume g: "get p k = Inr ks" and e: "entries ks = Inr es" and m: "(n, c) \<in> set es"
  from g Obj e have "(k, ks) \<in> set fs"
    by (auto split: option.splits dest: map_of_SomeD)
  then have lt: "size ks < size p" using size_field [of k ks fs] Obj by simp
  have "size c \<le> size ks"
  proof (cases ks)
    case (Obj gs)
    with e m show ?thesis using size_field [of n c gs] by auto
  next
    case (Arr xs)
    with e m have "c \<in> set xs" by (auto dest: size_indexed)
    then have "size c \<le> size_list size xs" by (induction xs) auto
    then show ?thesis using Arr by simp
  next
    case (Str s)
    with e m show ?thesis by (auto dest!: size_indexed)
  qed (use e m in auto)
  with lt show ?thesis by simp
qed (auto split: if_splits)

function toOpenapiObjectProperty :: "js \<Rightarrow> error + js"
  and toOpenapiObjectPropertyA :: "js \<Rightarrow> error + js"
  and toOpenapiListProperty :: "js \<Rightarrow> error + js"
where
  "toOpenapiObjectProperty propertyModel =
     bindE (describe propertyModel) (\<lambda>d.
     bindE (get propertyModel ''keys'') (\<lambda>ks.
     bindE (entries ks) (\<lambda>es.
     bindE (filterE (\<lambda>(_, schema). bindE (get schema ''required'') (\<lambda>r. Inr (r = Bool True))) es) (\<lambda>req.
     bindE (mapE (\<lambda>(name, model).
              bindE (toOpenapiObjectPropertyA model) (\<lambda>v. Inr (name, v))) es) (\<lambda>props.
       Inr (Obj [(''type'', Str ''object''),
                 (''description'', Str d),
                 (''required'', Arr (map (\<lambda>(name, _). Str name) req)),
                 (''properties'', fromEntries props)]))))))"
| "toOpenapiObjectPropertyA propertyModel =
     bindE (get propertyModel ''type'') (\<lambda>t.
       if t = Undefined \<or> t = Str ''map'' then toOpenapiObjectProperty propertyModel
       else if t = Str ''list'' then toOpenapiListProperty propertyModel
       else if t = Str ''device_class'' \<or> t = Str ''boolean'' \<or> t = Str ''integer''
               \<or> t = Str ''template'' \<or> t = Str ''string''
         then bindE (describe propertyModel) (\<lambda>d.
                Inr (Obj [(''description'', Str d), (''type'', Str ''string'')]))
       else Inr Undefined)"
| "toOpenapiListProperty propertyModel =
     bindE (describe propertyModel) (\<lambda>d.
     bindE (get propertyModel ''keys'') (\<lambda>ks.
     bindE (if truthy ks
            then bindE (entries ks) (\<lambda>es.
                 bindE (mapE (\<lambda>(name, model).
                          bindE (toOpenapiObjectPropertyA model) (\<lambda>v. Inr (name, v))) es) (\<lambda>props.
                   Inr (fromEntries props)))
            else Inr (Obj [(''type'', Str ''string'')])) (\<lambda>items.
       Inr (Obj [(''description'', Str d), (''type'', Str ''array''), (''items'', items)]))))"
  by pat_completeness auto

termination
  by (relation "measure (\<lambda>x. case x of Inl p \<Rightarrow> 2 * size p
                                   | Inr (Inl p) \<Rightarrow> 2 * size p + 1
                                   | Inr (Inr p) \<Rightarrow> 2 * size p)")
     (auto dest: size_child)

declare toOpenapiObjectProperty.simps [simp del]
declare toOpenapiObjectPropertyA.simps [simp del]
declare toOpenapiListProperty.simps [simp del]

text \<open>
  Two predicates of the specification, used to state the properties of the lowering.
  \<open>well_formed p\<close>: \<open>p\<close> is an attribute record as the data model has it, a mapping
  whose \<^verbatim>\<open>keys\<close>, when present, is a mapping of attribute records, and which has
  \<^verbatim>\<open>keys\<close> when its tag is absent or \<^verbatim>\<open>map\<close>. \<open>lowered es props\<close>: \<open>props\<close>
  lists the children \<open>es\<close> in their order, each under its name with its lowered schema.
\<close>

function (sequential) well_formed :: "js \<Rightarrow> bool" where
  "well_formed (Obj fs) =
     (case map_of fs ''keys'' of
        None \<Rightarrow> map_of fs ''type'' \<noteq> None \<and> map_of fs ''type'' \<noteq> Some Undefined
                 \<and> map_of fs ''type'' \<noteq> Some (Str ''map'')
      | Some ks \<Rightarrow> (case ks of Obj es \<Rightarrow> list_all (\<lambda>(n, c). well_formed c) es | _ \<Rightarrow> False))"
| "well_formed v = False"
  by pat_completeness auto
termination
proof (relation "measure size")
  fix fs ks es and z :: "string \<times> js" and n c
  assume "map_of fs ''keys'' = Some ks" "ks = Obj es" "z \<in> set es" "(n, c) = z"
  then have "(''keys'', Obj es) \<in> set fs" "(n, c) \<in> set es" by (auto dest: map_of_SomeD)
  then have "size c < size (Obj es)" "size (Obj es) < size (Obj fs)"
    by (auto dest: size_field simp del: js.size)
  then show "(c, Obj fs) \<in> measure size" by simp
qed simp

definition lowered :: "(string \<times> js) list \<Rightarrow> (string \<times> js) list \<Rightarrow> bool" where
  "lowered es props =
     list_all2 (\<lambda>e p. fst p = fst e \<and> toOpenapiObjectPropertyA (snd e) = Inr (snd p)) es props"

text \<open>
  \<^verbatim>\<open>toOpenapiObjectModel\<close>: the decoded configuration block becomes the \<^verbatim>\<open>keys\<close> of a
  required map. The YAML decoder is outside the repository; it is the parameter \<open>load\<close>.
\<close>

definition toOpenapiObjectModel :: "(string \<Rightarrow> error + js) \<Rightarrow> HomeAssistantConfiguration \<Rightarrow> error + js" where
  "toOpenapiObjectModel load this =
     bindE (load (this_source this)) (\<lambda>config.
       toOpenapiObjectProperty
         (Obj [(''description'', (case this_description this of None \<Rightarrow> Undefined | Some d \<Rightarrow> Str d)),
               (''required'', Bool True),
               (''type'', Str ''map''),
               (''keys'', config)]))"

definition AVAILABILITY_PROPERTIES :: "string list" where
  "AVAILABILITY_PROPERTIES =
     [''availability_topic'', ''payload_available'', ''payload_not_available'',
      ''availability_template'']"

definition getAvailabilityModel :: "(string \<Rightarrow> error + js) \<Rightarrow> HomeAssistantConfiguration \<Rightarrow> error + js" where
  "getAvailabilityModel load this =
     bindE (toOpenapiObjectModel load this) (\<lambda>model.
     bindE (get model ''properties'') (\<lambda>p1.
     bindE (get p1 ''availability'') (\<lambda>availability.
     bindE (get model ''properties'') (\<lambda>p2.
     bindE (get p2 ''availability_mode'') (\<lambda>availability_mode.
     bindE (get model ''properties'') (\<lambda>p3.
     bindE (entries p3) (\<lambda>es.
       Inr (Obj [(''oneOf'',
                  Arr [Obj [(''allOf'', Arr [availability, availability_mode])],
                       fromEntries (filter (\<lambda>(name, _). name \<in> set AVAILABILITY_PROPERTIES) es)])]))))))))"

definition getDeviceModel :: "(string \<Rightarrow> error + js) \<Rightarrow> HomeAssistantConfiguration \<Rightarrow> error + js" where
  "getDeviceModel load this =
     bindE (toOpenapiObjectModel load this) (\<lambda>model.
     bindE (get model ''properties'') (\<lambda>p. get p ''device''))"

text \<open>
  The body of the loop over the documents: build the configuration, lower it, write the
  fragment. The result is the file written, its name and its text. \<open>dump\<close> is the YAML
  printer of the library. \<^verbatim>\<open>source.replace(/^/gm, "# ")\<close> puts the comment marker at
  the start of the text and after every line terminator.
\<close>

definition comment_lines :: "string \<Rightarrow> string" where
  "comment_lines s = ''# '' @ concat (map (\<lambda>c. if is_line_terminator c then c # ''# '' else [c]) s)"

definition convert :: "fs \<Rightarrow> (string \<Rightarrow> error + js) \<Rightarrow> (js \<Rightarrow> error + string) \<Rightarrow> string \<Rightarrow> string
    \<Rightarrow> error + (string \<times> string)" where
  "convert files load dump fragments filePath =
     bindE (new_HomeAssistantConfiguration files filePath) (\<lambda>config.
     bindE (toOpenapiObjectModel load config) (\<lambda>openapiModel.
     bindE (dump openapiModel) (\<lambda>yml.
       Inr (fragments @ ''/'' @ this_name config @ ''.yml'',
            ''# Auto-generated Openapi model from the following content:'' @ [CHR 0x0A]
              @ comment_lines (this_source config) @ [CHR 0x0A, CHR 0x0A] @ yml))))"

section \<open>Typed-model lowering (generator/src/entity.ts)\<close>

text \<open>
  \<^verbatim>\<open>v.k = x\<close> in a module, which is strict code: assigning to a property of a primitive
  value throws. An array accepts the assignment, but its named properties are not
  represented here; \<^verbatim>\<open>appendRustType\<close> throws later for every array, whose
  \<^verbatim>\<open>type\<close> is undefined, so no result depends on them.
\<close>

fun set_prop :: "js \<Rightarrow> string \<Rightarrow> js \<Rightarrow> error + js" where
  "set_prop (Obj fs) k x = Inr (Obj (put k x fs))"
| "set_prop (Arr xs) k x = Inr (Arr xs)"
| "set_prop Fn k x = Inr Fn"
| "set_prop v k x = Inl TypeError"

text \<open>
  \<^verbatim>\<open>v.includes(n)\<close>: a substring test on a string, a membership test on an array; no
  other value has the method, and calling it throws.
\<close>

fun js_includes :: "js \<Rightarrow> string \<Rightarrow> error + bool" where
  "js_includes (Str s) n = Inr (split_first n s \<noteq> None)"
| "js_includes (Arr xs) n = Inr (Str n \<in> set xs)"
| "js_includes v n = Inl TypeError"

definition is_word :: "char \<Rightarrow> bool" where
  "is_word c = (let n = (of_char c :: nat) in
     (97 \<le> n \<and> n \<le> 122) \<or> (65 \<le> n \<and> n \<le> 90) \<or> (48 \<le> n \<and> n \<le> 57) \<or> n = 95)"

definition to_upper :: "char \<Rightarrow> char" where
  "to_upper c = (let n = (of_char c :: nat) in if 97 \<le> n \<and> n \<le> 122 then char_of (n - 32) else c)"

definition to_lower :: "char \<Rightarrow> char" where
  "to_lower c = (let n = (of_char c :: nat) in if 65 \<le> n \<and> n \<le> 90 then char_of (n + 32) else c)"

text \<open>\<^verbatim>\<open>s.split("_")\<close>.\<close>

fun split_underscore :: "string \<Rightarrow> string list" where
  "split_underscore [] = [[]]"
| "split_underscore (c # cs) =
     (if c = CHR ''_'' then [] # split_underscore cs
      else case split_underscore cs of l # ls \<Rightarrow> (c # l) # ls | [] \<Rightarrow> [[c]])"

text \<open>
  \<^verbatim>\<open>word.replace(/(\w)(\w*)/g, ...)\<close>: in every run of word characters the first is put
  in upper case and the others in lower case. The flag says that the previous character
  belongs to the run.
\<close>

fun capitalize :: "bool \<Rightarrow> string \<Rightarrow> string" where
  "capitalize inside [] = []"
| "capitalize inside (c # cs) =
     (if is_word c then (if inside then to_lower c else to_upper c) # capitalize True cs
      else c # capitalize False cs)"

definition toPascalCase :: "string \<Rightarrow> string" where
  "toPascalCase text = concat (map (capitalize False) (split_underscore text))"

text \<open>
  \<^verbatim>\<open>new RegExp("/integrations/(?<name>[^/]*)/#device-class").exec(s)\<close>: the group
  \<^verbatim>\<open>name\<close> of the first match. The group cannot hold a slash, so at a given start it is
  the text up to the next slash, and the anchor must follow at once.
\<close>

definition anchor_here :: "string \<Rightarrow> string option" where
  "anchor_here s =
     (if starts_with ''/integrations/'' s
      then let r = drop (length ''/integrations/'') s in
           if starts_with ''/#device-class'' (dropWhile (\<lambda>c. c \<noteq> CHR ''/'') r)
           then Some (takeWhile (\<lambda>c. c \<noteq> CHR ''/'') r) else None
      else None)"

fun find_anchor :: "string \<Rightarrow> string option" where
  "find_anchor [] = None"
| "find_anchor (c # cs) =
     (case anchor_here (c # cs) of Some n \<Rightarrow> Some n | None \<Rightarrow> find_anchor cs)"

definition IGNORED_ATTRS :: "string list" where
  "IGNORED_ATTRS =
     [''availability_mode'', ''availability_template'', ''availability_topic'',
      ''expire_after'', ''device'', ''entity_category'', []]"

text \<open>
  \<^verbatim>\<open>appendRustType\<close> assigns to the attribute record in three steps: the identifier, the
  type by the tag (the first \<^verbatim>\<open>switch\<close>), the type by the name of the field (the
  second \<^verbatim>\<open>switch\<close>). The record is passed through and returned.
\<close>

definition setRustSafeName :: "string \<Rightarrow> js \<Rightarrow> error + js" where
  "setRustSafeName name attrs =
     set_prop attrs ''rustSafeName'' (Str (if name = ''type'' then ''r#'' @ name else name))"

definition rustTypeByTag :: "js \<Rightarrow> error + js" where
  "rustTypeByTag attrs =
     bindE (get attrs ''type'') (\<lambda>t.
       if t = Str ''template'' \<or> t = Str ''string'' \<or> t = Str ''icon''
         then bindE (set_prop attrs ''rustType'' (Str ''String'')) (\<lambda>a.
                set_prop a ''useInto'' (Bool True))
       else if t = Str ''float'' then set_prop attrs ''rustType'' (Str ''f32'')
       else if t = Str ''integer'' then set_prop attrs ''rustType'' (Str ''i32'')
       else if t = Str ''boolean'' then set_prop attrs ''rustType'' (Str ''bool'')
       else bindE (js_includes t ''list'') (\<lambda>b.
              if b then set_prop attrs ''rustType'' (Str ''Vec<String>'') else Inr attrs))"

definition deviceClassOverride :: "js \<Rightarrow> error + js" where
  "deviceClassOverride attrs =
     bindE (get attrs ''description'') (\<lambda>d.
       case find_anchor (to_string d) of
         None \<Rightarrow> Inr attrs
       | Some entityName \<Rightarrow>
           if entityName \<noteq> []
           then let deviceClassType = toPascalCase entityName @ ''DeviceClass'' in
                bindE (set_prop attrs ''rustType'' (Str deviceClassType)) (\<lambda>a.
                  set_prop a ''import'' (Str (''use super::device_classes::'' @ deviceClassType)))
           else Inr attrs)"

definition rustTypeByName :: "string \<Rightarrow> js \<Rightarrow> error + js" where
  "rustTypeByName name attrs =
     (if name = ''device_class'' then deviceClassOverride attrs
      else if name = ''unit_of_measurement''
        then bindE (set_prop attrs ''rustType'' (Str ''Unit'')) (\<lambda>a.
               set_prop a ''import'' (Str ''use super::units::Unit''))
      else if name = ''state_class''
        then bindE (set_prop attrs ''rustType'' (Str ''SensorStateClass'')) (\<lambda>a.
               set_prop a ''import'' (Str ''use super::common::SensorStateClass''))
      else if name = ''qos''
        then bindE (set_prop attrs ''rustType'' (Str ''Qos'')) (\<lambda>a.
               set_prop a ''import'' (Str ''use super::common::Qos''))
      else Inr attrs)"

definition appendRustType :: "string \<Rightarrow> js \<Rightarrow> error + js" where
  "appendRustType name attrs =
     bindE (setRustSafeName name attrs) (\<lambda>a1.
     bindE (rustTypeByTag a1) (\<lambda>a2.
       rustTypeByName name a2))"

text \<open>
  \<^verbatim>\<open>/{% configuration %}([^]*){% endconfiguration %}/gm.exec(s)\<close>: the first start at
  which the expression matches is tried first; there the greedy group runs to the last
  closing sentinel. The result is the group, or nothing when no start matches.
\<close>

fun exec_configuration :: "string \<Rightarrow> string option" where
  "exec_configuration [] = None"
| "exec_configuration (c # cs) =
     (if starts_with OPEN_SENTINEL (c # cs)
      then case split_last CLOSE_SENTINEL (drop (length OPEN_SENTINEL) (c # cs)) of
             Some (y, a) \<Rightarrow> Some y
           | None \<Rightarrow> exec_configuration cs
      else exec_configuration cs)"

record MqttEntity =
  entityName :: string
  entityDoc :: string
  properties :: js

text \<open>
  The entries kept and typed: the names are those of the decoded block in its order,
  filtered by tag, then by the ignore list; \<^verbatim>\<open>appendRustType\<close> runs on each, and the
  first exception ends the loop. The attribute records of a decoded block are separate
  objects.
\<close>

definition typedEntries :: "string list \<Rightarrow> js \<Rightarrow> error + (string \<times> js) list" where
  "typedEntries ignored modelDescriptor =
     bindE (entries modelDescriptor) (\<lambda>es.
     bindE (filterE (\<lambda>(name, attrs).
              bindE (get attrs ''type'') (\<lambda>t. Inr (\<not> (t = Str ''list'' \<or> t = Str ''map'')))) es) (\<lambda>es1.
       mapE (\<lambda>(name, attrs). bindE (appendRustType name attrs) (\<lambda>a. Inr (name, a)))
         (filter (\<lambda>(name, attrs). name \<notin> set ignored) es1)))"

text \<open>
  \<^verbatim>\<open>generateMqttEntityModel\<close>, with the ignore list as a parameter. When the expression
  does not match, reading the group throws; the handler logs and throws again. \<open>parse\<close>
  is the YAML decoder of the library.
\<close>

definition generateMqttEntityModelWith ::
    "string list \<Rightarrow> fs \<Rightarrow> (string \<Rightarrow> error + js) \<Rightarrow> string \<Rightarrow> string \<Rightarrow> error + MqttEntity" where
  "generateMqttEntityModelWith ignored files parse name docFile =
     bindE (readFileSync files docFile) (\<lambda>docContent.
       case exec_configuration docContent of
         None \<Rightarrow> Inl TypeError
       | Some yml \<Rightarrow>
           bindE (parse yml) (\<lambda>modelDescriptor.
           bindE (typedEntries ignored modelDescriptor) (\<lambda>es.
             Inr \<lparr> entityName = name, entityDoc = docContent, properties = fromEntries es \<rparr>)))"

definition generateMqttEntityModel ::
    "fs \<Rightarrow> (string \<Rightarrow> error + js) \<Rightarrow> string \<Rightarrow> string \<Rightarrow> error + MqttEntity" where
  "generateMqttEntityModel = generateMqttEntityModelWith IGNORED_ATTRS"

section \<open>Typed-model lowering, second version of entity.ts\<close>

text \<open>
  The repository holds a second version of \<^verbatim>\<open>entity.ts\<close>. It differs from the first in
  four places: the group of the expression is lazy (\<^verbatim>\<open>[^]*?\<close>), the entries are
  filtered by name only, the first \<^verbatim>\<open>switch\<close> types a list without \<^verbatim>\<open>keys\<close> and marks
  it iterable, and the result carries the set of imports (the field \<^verbatim>\<open>imports\<close>, a keyword here).
\<close>

definition IGNORED_ATTRS_v2 :: "string list" where
  "IGNORED_ATTRS_v2 =
     [''availability'', ''availability_mode'', ''availability_template'',
      ''availability_topic'', ''payload_available'', ''payload_not_available'',
      ''expire_after'', ''device'', ''entity_category'']"

definition rustTypeByTag_v2 :: "js \<Rightarrow> error + js" where
  "rustTypeByTag_v2 attrs =
     bindE (get attrs ''type'') (\<lambda>t.
       if t = Str ''template'' \<or> t = Str ''string'' \<or> t = Str ''icon''
         then bindE (set_prop attrs ''rustType'' (Str ''String'')) (\<lambda>a.
                set_prop a ''useInto'' (Bool True))
       else if t = Str ''float''
         then bindE (set_prop attrs ''rustType'' (Str ''Decimal'')) (\<lambda>a.
                set_prop a ''import'' (Str ''pub use rust_decimal::Decimal''))
       else if t = Str ''integer'' then set_prop attrs ''rustType'' (Str ''i32'')
       else if t = Str ''boolean'' then set_prop attrs ''rustType'' (Str ''bool'')
       else if t = Str ''list''
         then bindE (get attrs ''keys'') (\<lambda>ks.
                if \<not> truthy ks
                then bindE (set_prop attrs ''rustType'' (Str ''String'')) (\<lambda>a.
                     bindE (set_prop a ''iterable'' (Bool True)) (\<lambda>a.
                       set_prop a ''useInto'' (Bool True)))
                else Inr attrs)
       else bindE (js_includes t ''list'') (\<lambda>b.
              if b
              then bindE (set_prop attrs ''rustType'' (Str ''String'')) (\<lambda>a.
                   bindE (set_prop a ''iterable'' (Bool True)) (\<lambda>a.
                     set_prop a ''useInto'' (Bool True)))
              else Inr attrs))"

definition rustTypeByName_v2 :: "string \<Rightarrow> js \<Rightarrow> error + js" where
  "rustTypeByName_v2 name attrs =
     (if name = ''device_class'' then deviceClassOverride attrs
      else if name = ''unit_of_measurement''
        then bindE (set_prop attrs ''rustType'' (Str ''Unit'')) (\<lambda>a.
               set_prop a ''import'' (Str ''use super::units::Unit''))
      else if name = ''state_class''
        then bindE (set_prop attrs ''rustType'' (Str ''SensorStateClass'')) (\<lambda>a.
               set_prop a ''import'' (Str ''use super::common::SensorStateClass''))
      else if name = ''qos''
        then bindE (set_prop attrs ''rustType'' (Str ''Qos'')) (\<lambda>a.
               set_prop a ''import'' (Str ''use super::common::Qos''))
      else if name = ''temperature_unit''
        then bindE (set_prop attrs ''rustType'' (Str ''TemperatureUnit'')) (\<lambda>a.
               set_prop a ''import'' (Str ''use super::common::TemperatureUnit''))
      else Inr attrs)"

definition appendRustType_v2 :: "string \<Rightarrow> js \<Rightarrow> error + js" where
  "appendRustType_v2 name attrs =
     bindE (setRustSafeName name attrs) (\<lambda>a1.
     bindE (rustTypeByTag_v2 a1) (\<lambda>a2.
       rustTypeByName_v2 name a2))"

text \<open>
  \<^verbatim>\<open>/{% configuration %}([^]*?){% endconfiguration %}/gm.exec(s)\<close>: the lazy group ends
  at the first closing sentinel after the opening one.
\<close>

fun exec_configuration_v2 :: "string \<Rightarrow> string option" where
  "exec_configuration_v2 [] = None"
| "exec_configuration_v2 (c # cs) =
     (if starts_with OPEN_SENTINEL (c # cs)
      then case split_first CLOSE_SENTINEL (drop (length OPEN_SENTINEL) (c # cs)) of
             Some (y, a) \<Rightarrow> Some y
           | None \<Rightarrow> exec_configuration_v2 cs
      else exec_configuration_v2 cs)"

record MqttEntity_v2 = MqttEntity +
  entity_imports :: "js list"

text \<open>
  \<^verbatim>\<open>new Set(xs)\<close>, as the list of its elements in insertion order. Two primitive values
  are the same element when they are equal; two objects never are, since each attribute
  record is an object of its own.
\<close>

fun same_value :: "js \<Rightarrow> js \<Rightarrow> bool" where
  "same_value (Arr xs) y = False"
| "same_value (Obj fs) y = False"
| "same_value x y = (x = y)"

definition new_Set :: "js list \<Rightarrow> js list" where
  "new_Set xs = foldl (\<lambda>acc x. if \<exists>y \<in> set acc. same_value x y then acc else acc @ [x]) [] xs"

definition typedEntries_v2 :: "string list \<Rightarrow> js \<Rightarrow> error + (string \<times> js) list" where
  "typedEntries_v2 ignored modelDescriptor =
     bindE (entries modelDescriptor) (\<lambda>es.
       mapE (\<lambda>(name, attrs). bindE (appendRustType_v2 name attrs) (\<lambda>a. Inr (name, a)))
         (filter (\<lambda>(name, attrs). name \<notin> set ignored) es))"

definition generateMqttEntityModelWith_v2 ::
    "string list \<Rightarrow> fs \<Rightarrow> (string \<Rightarrow> error + js) \<Rightarrow> string \<Rightarrow> string \<Rightarrow> error + MqttEntity_v2" where
  "generateMqttEntityModelWith_v2 ignored files parse name docFile =
     bindE (readFileSync files docFile) (\<lambda>docContent.
       case exec_configuration_v2 docContent of
         None \<Rightarrow> Inl TypeError
       | Some yml \<Rightarrow>
           bindE (parse yml) (\<lambda>modelDescriptor.
           bindE (typedEntries_v2 ignored modelDescriptor) (\<lambda>es.
           bindE (mapE (\<lambda>(name, attrs). get attrs ''import'') es) (\<lambda>is.
             Inr \<lparr> entityName = name, entityDoc = docContent, properties = fromEntries es,
                   entity_imports = new_Set (filter truthy is) \<rparr>))))"

definition generateMqttEntityModel_v2 ::
    "fs \<Rightarrow> (string \<Rightarrow> error + js) \<Rightarrow> string \<Rightarrow> string \<Rightarrow> error + MqttEntity_v2" where
  "generateMqttEntityModel_v2 = generateMqttEntityModelWith_v2 IGNORED_ATTRS_v2"

section \<open>Device classes (generator/src/device-class.ts)\<close>

text \<open>
  \<^verbatim>\<open>/^###* Device Class(?:es)?([^]*)/gim.exec(s)\<close>, tried at one position: two hashes,
  any more hashes, the words in any case, then \<^verbatim>\<open>es\<close> when it is there. The result is
  the group: the rest of the text.
\<close>

definition heading_here :: "string \<Rightarrow> string option" where
  "heading_here s =
     (if starts_with ''##'' s
      then let r = dropWhile (\<lambda>c. c = CHR ''#'') (drop 2 s) in
           if map to_lower (take (length '' device class'') r) = '' device class''
           then let r' = drop (length '' device class'') r in
                Some (if map to_lower (take 2 r') = ''es'' then drop 2 r' else r')
           else None
      else None)"

text \<open>
  What the expression matches at a position, said without the functions on lists: two
  hashes, further hashes, and thirteen characters that read \<^verbatim>\<open> device class\<close> in lower
  case.
\<close>

definition is_heading :: "string \<Rightarrow> bool" where
  "is_heading s = (\<exists>h w t. s = ''##'' @ h @ w @ t \<and> (\<forall>c \<in> set h. c = CHR ''#'')
                      \<and> map to_lower w = '' device class'')"

text \<open>
  The search for the first match: \<^verbatim>\<open>^\<close> holds at the start of the text and after a line
  terminator. The flag says that it holds at the current position.
\<close>

fun find_heading :: "bool \<Rightarrow> string \<Rightarrow> string option" where
  "find_heading bol [] = None"
| "find_heading bol (c # cs) =
     (case (if bol then heading_here (c # cs) else None) of
        Some r \<Rightarrow> Some r
      | None \<Rightarrow> find_heading (is_line_terminator c) cs)"

text \<open>
  \<^verbatim>\<open>s.replace(/^###*[^]*/gm, "")\<close>: the text is cut at the first line that starts with
  two hashes.
\<close>

fun cut_at_heading :: "bool \<Rightarrow> string \<Rightarrow> string" where
  "cut_at_heading bol [] = []"
| "cut_at_heading bol (c # cs) =
     (if bol \<and> starts_with ''##'' (c # cs) then []
      else c # cut_at_heading (is_line_terminator c) cs)"

text \<open>
  \<^verbatim>\<open>/- (?<name>.*): (?<description>.*)/gm.exec(line)\<close>: at the first start where it
  matches, the greedy name ends at the last colon-space before a line terminator, and the
  description is the rest up to there.
\<close>

fun match_line :: "string \<Rightarrow> (string \<times> string) option" where
  "match_line [] = None"
| "match_line (c # cs) =
     (if starts_with ''- '' (c # cs)
      then case split_last '': '' (takeWhile (\<lambda>c. \<not> is_line_terminator c) (drop 2 (c # cs))) of
             Some (n, d) \<Rightarrow> Some (n, d)
           | None \<Rightarrow> match_line cs
      else match_line cs)"

record EnumValue =
  enum_value :: string
  enum_description :: string

record DeviceClassesEnumModel =
  model_name :: string
  model_values :: "EnumValue list"

text \<open>
  \<^verbatim>\<open>extractDeviceClassesEnums\<close>. Without a heading the expression does not match and
  reading the group throws.
\<close>

definition extractDeviceClassesEnums :: "fs \<Rightarrow> string \<Rightarrow> string \<Rightarrow> error + DeviceClassesEnumModel" where
  "extractDeviceClassesEnums files name docFile =
     bindE (readFileSync files docFile) (\<lambda>docContent.
       case find_heading True docContent of
         None \<Rightarrow> Inl TypeError
       | Some rest \<Rightarrow>
           let docEnumValuesParagraph = cut_at_heading True rest;
               enumValues = List.map_filter (\<lambda>line.
                   case match_line line of
                     None \<Rightarrow> None
                   | Some (n, d) \<Rightarrow> Some \<lparr> enum_value = filter is_word n, enum_description = d \<rparr>)
                 (split_lines docEnumValuesParagraph)
           in Inr \<lparr> model_name = name, model_values = enumValues \<rparr>)"

section \<open>Basic facts\<close>

lemma bindE_Inr [simp]: "bindE (Inr x) f = f x"
  by (simp add: bindE_def)

lemma bindE_Inl [simp]: "bindE (Inl e) f = Inl e"
  by (simp add: bindE_def)

lemma js_in_Obj: "js_in k (Obj fs) = Inr (map_of fs k \<noteq> None)"
  by (simp add: map_of_eq_None_iff)

section \<open>Description synthesis\<close>




section \<open>Facts about the string functions\<close>

lemma bindE_assoc: "bindE (bindE m f) g = bindE m (\<lambda>x. bindE (f x) g)"
  by (cases m) simp_all

lemma starts_with_iff: "starts_with n s \<longleftrightarrow> (\<exists>b. s = n @ b)"
  unfolding starts_with_def
  by (metis append_eq_conv_conj append_take_drop_id)

lemma starts_with_drop: "starts_with n s \<Longrightarrow> n @ drop (length n) s = s"
  unfolding starts_with_def by (metis append_take_drop_id)

lemma occurs_Nil: "occurs n [] \<longleftrightarrow> n = []"
  by (auto simp: occurs_def)

lemma occurs_Cons: "occurs n (c # cs) \<longleftrightarrow> starts_with n (c # cs) \<or> occurs n cs"
proof
  assume "occurs n (c # cs)"
  then obtain a b where e: "c # cs = a @ n @ b" by (auto simp: occurs_def)
  show "starts_with n (c # cs) \<or> occurs n cs"
  proof (cases a)
    case Nil
    with e show ?thesis by (auto simp: starts_with_iff)
  next
    case (Cons x a')
    with e have "cs = a' @ n @ b" by simp
    then show ?thesis by (auto simp: occurs_def)
  qed
next
  assume "starts_with n (c # cs) \<or> occurs n cs"
  then show "occurs n (c # cs)"
  proof
    assume "starts_with n (c # cs)"
    then obtain b where "c # cs = [] @ n @ b" by (auto simp: starts_with_iff)
    then show ?thesis unfolding occurs_def by blast
  next
    assume "occurs n cs"
    then obtain a b where "cs = a @ n @ b" by (auto simp: occurs_def)
    then have "c # cs = (c # a) @ n @ b" by simp
    then show ?thesis unfolding occurs_def by blast
  qed
qed

lemma split_first_None: "split_first n s = None \<longleftrightarrow> \<not> occurs n s"
  by (induction s) (auto simp: occurs_Nil occurs_Cons split: option.splits)

lemma split_last_None: "split_last n s = None \<longleftrightarrow> \<not> occurs n s"
  by (induction s) (auto simp: occurs_Nil occurs_Cons split: option.splits)

lemma split_first_Some: "split_first n s = Some (b, a) \<Longrightarrow> s = b @ n @ a"
proof (induction s arbitrary: b)
  case Nil
  then show ?case by (simp split: if_splits)
next
  case (Cons c cs)
  show ?case
  proof (cases "starts_with n (c # cs)")
    case True
    with Cons.prems show ?thesis using starts_with_drop [OF True] by simp
  next
    case False
    with Cons.prems obtain b' where "split_first n cs = Some (b', a)" "b = c # b'"
      by (auto split: option.splits)
    with Cons.IH show ?thesis by simp
  qed
qed

lemma split_last_Some: "split_last n s = Some (b, a) \<Longrightarrow> s = b @ n @ a"
proof (induction s arbitrary: b)
  case Nil
  then show ?case by (simp split: if_splits)
next
  case (Cons c cs)
  show ?case
  proof (cases "split_last n cs")
    case None
    with Cons.prems have st: "starts_with n (c # cs)" and "b = []" "a = drop (length n) (c # cs)"
      by (auto split: if_splits)
    then show ?thesis using starts_with_drop [OF st] by simp
  next
    case (Some p)
    with Cons.prems obtain b' where "split_last n cs = Some (b', a)" "b = c # b'"
      by (cases p) auto
    with Cons.IH show ?thesis by simp
  qed
qed

lemma strip_no_sentinel:
  "\<not> occurs OPEN_SENTINEL s \<Longrightarrow> \<not> occurs CLOSE_SENTINEL s \<Longrightarrow>
   strip_from_close (strip_through_open s) = s"
  using split_last_None [of OPEN_SENTINEL s] split_first_None [of CLOSE_SENTINEL s]
  by (simp add: strip_from_close_def strip_through_open_def)

section \<open>A type tag outside the cases of the switch\<close>

text \<open>
  C2, as stated, at the tag \<^verbatim>\<open>float\<close>: the lowering of the record raises no error; it
  returns \<^verbatim>\<open>undefined\<close>.
\<close>

theorem unknown_tag_counterexample:
  "toOpenapiObjectPropertyA (Obj [(''type'', Str ''float''), (''description'', Str ''The step.'')])
   = Inr Undefined"
  by (simp add: toOpenapiObjectPropertyA.simps)

text \<open>
  C2, amended. For every attribute record whose type tag is none of absent, \<^verbatim>\<open>map\<close>,
  \<^verbatim>\<open>list\<close>, \<^verbatim>\<open>device_class\<close>, \<^verbatim>\<open>boolean\<close>, \<^verbatim>\<open>integer\<close>, \<^verbatim>\<open>template\<close> and
  \<^verbatim>\<open>string\<close>, \<^verbatim>\<open>toOpenapiObjectPropertyA\<close> raises no error and returns \<^verbatim>\<open>undefined\<close>:
  no node of any kind is built for the record.
\<close>

theorem unknown_tag_undefined:
  assumes "get p ''type'' = Inr t"
    and "t \<notin> {Undefined, Str ''map'', Str ''list'', Str ''device_class'', Str ''boolean'',
               Str ''integer'', Str ''template'', Str ''string''}"
  shows "toOpenapiObjectPropertyA p = Inr Undefined"
  using assms by (simp add: toOpenapiObjectPropertyA.simps)

theorem unknown_tag_undefined_witness:
  "toOpenapiObjectPropertyA (Obj [(''type'', Str ''icon'')]) = Inr Undefined"
  by (rule unknown_tag_undefined [where t = "Str ''icon''"]) simp_all

section \<open>A document without sentinels\<close>

text \<open>
  C3, as stated, at the document \<^verbatim>\<open>{}\<close>, which holds no sentinel: the constructor
  raises no error and keeps the whole text as the source. \<^verbatim>\<open>{}\<close> is the empty mapping in
  YAML; the decoder and the printer of the library are given here by their values on this
  document and on its model. The loop body writes the fragment of the document.
\<close>

theorem no_sentinel_counterexample:
  "new_HomeAssistantConfiguration
     (\<lambda>p. if p = ''docs/empty.mqtt.markdown'' then Some ''{}'' else None) ''docs/empty.mqtt.markdown''
   = Inr \<lparr> this_name = ''empty'', this_description = None, this_source = ''{}'' \<rparr>
   \<and> convert (\<lambda>p. if p = ''docs/empty.mqtt.markdown'' then Some ''{}'' else None)
       (\<lambda>s. if s = ''{}'' then Inr (Obj []) else Inl YAMLException)
       (\<lambda>m. if m = Obj [(''type'', Str ''object''), (''description'', Str []),
                            (''required'', Arr []), (''properties'', Obj [])]
            then Inr (''type: object'' @ [CHR 0x0A] @ ''description: '' @ [CHR 0x27, CHR 0x27, CHR 0x0A]
                      @ ''required: []'' @ [CHR 0x0A] @ ''properties: {}'' @ [CHR 0x0A])
            else Inl YAMLException)
       ''fragments'' ''docs/empty.mqtt.markdown''
     = Inr (''fragments/empty.yml'',
            ''# Auto-generated Openapi model from the following content:'' @ [CHR 0x0A] @ ''# {}''
              @ [CHR 0x0A, CHR 0x0A]
              @ ''type: object'' @ [CHR 0x0A] @ ''description: '' @ [CHR 0x27, CHR 0x27, CHR 0x0A]
              @ ''required: []'' @ [CHR 0x0A] @ ''properties: {}'' @ [CHR 0x0A])"
  by (simp add: new_HomeAssistantConfiguration_def readFileSync_def strip_from_close_def strip_through_open_def
       OPEN_SENTINEL_def CLOSE_SENTINEL_def starts_with_def strip_mqtt_markdown_def strip_directories_def
       alt_path_def is_line_terminator_def convert_def toOpenapiObjectModel_def describe_def
       fromEntries_def comment_lines_def toOpenapiObjectProperty.simps)

text \<open>
  C3, amended. For every document that can be read and contains neither sentinel, the
  constructor raises no error and the source is the whole text of the document; the loop
  body then decodes and lowers that text, and it writes the fragment whenever the
  decoder, the lowering and the printer succeed.
\<close>

theorem no_sentinel_no_error:
  assumes "files path = Some s"
    and "\<not> occurs OPEN_SENTINEL s" and "\<not> occurs CLOSE_SENTINEL s"
  shows "\<exists>c. new_HomeAssistantConfiguration files path = Inr c \<and> this_source c = s
           \<and> convert files load dump fragments path =
               bindE (load s) (\<lambda>config.
               bindE (toOpenapiObjectProperty
                        (Obj [(''description'', (case this_description c of None \<Rightarrow> Undefined | Some d \<Rightarrow> Str d)),
                              (''required'', Bool True), (''type'', Str ''map''), (''keys'', config)])) (\<lambda>openapiModel.
               bindE (dump openapiModel) (\<lambda>yml.
                 Inr (fragments @ ''/'' @ this_name c @ ''.yml'',
                      ''# Auto-generated Openapi model from the following content:'' @ [CHR 0x0A]
                        @ comment_lines s @ [CHR 0x0A, CHR 0x0A] @ yml))))"
  using assms
  by (simp add: new_HomeAssistantConfiguration_def readFileSync_def strip_no_sentinel convert_def
      toOpenapiObjectModel_def bindE_assoc)

theorem no_sentinel_no_error_witness:
  "\<exists>c. new_HomeAssistantConfiguration (\<lambda>p. if p = ''a.mqtt.markdown'' then Some ''b: {}'' else None)
          ''a.mqtt.markdown'' = Inr c
       \<and> this_source c = ''b: {}''
       \<and> convert (\<lambda>p. if p = ''a.mqtt.markdown'' then Some ''b: {}'' else None)
           (\<lambda>s. Inr (Obj [(''b'', Obj [])])) (\<lambda>m. Inr (to_string m)) ''out'' ''a.mqtt.markdown'' =
           bindE ((\<lambda>s. Inr (Obj [(''b'', Obj [])])) ''b: {}'') (\<lambda>config.
           bindE (toOpenapiObjectProperty
                    (Obj [(''description'', (case this_description c of None \<Rightarrow> Undefined | Some d \<Rightarrow> Str d)),
                          (''required'', Bool True), (''type'', Str ''map''), (''keys'', config)])) (\<lambda>openapiModel.
           bindE ((\<lambda>m. Inr (to_string m)) openapiModel) (\<lambda>yml.
             Inr (''out'' @ ''/'' @ this_name c @ ''.yml'',
                  ''# Auto-generated Openapi model from the following content:'' @ [CHR 0x0A]
                    @ comment_lines ''b: {}'' @ [CHR 0x0A, CHR 0x0A] @ yml))))"
  by (rule no_sentinel_no_error)
     (simp_all add: split_first_None [symmetric] OPEN_SENTINEL_def CLOSE_SENTINEL_def starts_with_def)

section \<open>A document with two configuration blocks\<close>

text \<open>
  C9, evaluated on a document with two blocks. The constructor of
  \<^verbatim>\<open>HomeAssistantConfiguration\<close> keeps the text of the last block. The expression of
  \<^verbatim>\<open>entity.ts\<close> captures from the first opening sentinel to the last closing one. Only
  the lazy expression of the second version of \<^verbatim>\<open>entity.ts\<close> captures the first block.
\<close>

theorem two_blocks_extraction:
  "map_sum id this_source (new_HomeAssistantConfiguration
     (\<lambda>p. if p = ''docs/light.mqtt.markdown''
          then Some ''intro{% configuration %}first{% endconfiguration %}middle{% configuration %}second{% endconfiguration %}end''
          else None)
     ''docs/light.mqtt.markdown'') = Inr ''second''
   \<and> exec_configuration
       ''intro{% configuration %}first{% endconfiguration %}middle{% configuration %}second{% endconfiguration %}end''
     = Some ''first{% endconfiguration %}middle{% configuration %}second''
   \<and> exec_configuration_v2
       ''intro{% configuration %}first{% endconfiguration %}middle{% configuration %}second{% endconfiguration %}end''
     = Some ''first''"
  by (simp add: new_HomeAssistantConfiguration_def readFileSync_def strip_from_close_def strip_through_open_def
       OPEN_SENTINEL_def CLOSE_SENTINEL_def starts_with_def)

text \<open>
  The lazy expression of the second version does what C9 says on every document: when
  the opening sentinel after \<open>a\<close> is the first one of the document and the closing
  sentinel after \<open>y\<close> is the first one that follows it, the group is \<open>y\<close>.
\<close>

lemma starts_with_occurs:
  assumes "starts_with n (y @ n @ b)" and "y \<noteq> []"
  shows "occurs n (y @ butlast n)"
proof (cases "n = []")
  case True
  then show ?thesis by (auto simp: occurs_def)
next
  case False
  then have n: "n = butlast n @ [last n]" by simp
  have len: "length n \<le> length (y @ butlast n)" using assms(2) by (cases y) auto
  from assms(1) have "take (length n) (y @ n @ b) = n" by (simp add: starts_with_def)
  moreover have "y @ n @ b = (y @ butlast n) @ ([last n] @ b)" using n by (metis append_assoc)
  ultimately have "take (length n) ((y @ butlast n) @ ([last n] @ b)) = n" by simp
  with len have "take (length n) (y @ butlast n) = n" by simp
  then have "y @ butlast n = [] @ n @ drop (length n) (y @ butlast n)"
    by (metis append_Nil append_take_drop_id)
  then show ?thesis unfolding occurs_def by blast
qed

lemma split_first_append:
  assumes "n \<noteq> []"
  shows "\<not> occurs n (y @ butlast n) \<Longrightarrow> split_first n (y @ n @ b) = Some (y, b)"
proof (induction y)
  case Nil
  then show ?case using assms by (cases n) (auto simp: starts_with_def)
next
  case (Cons c y)
  from Cons.prems have "\<not> starts_with n ((c # y) @ n @ b)" using starts_with_occurs [of n "c # y" b] by blast
  moreover from Cons.prems have "\<not> occurs n (y @ butlast n)" by (simp add: occurs_Cons)
  ultimately show ?case using Cons.IH by simp
qed

lemma exec_configuration_v2_here:
  assumes "starts_with OPEN_SENTINEL s"
    and "split_first CLOSE_SENTINEL (drop (length OPEN_SENTINEL) s) = Some (y, r)"
  shows "exec_configuration_v2 s = Some y"
proof (cases s)
  case Nil
  with assms(1) show ?thesis by (simp add: starts_with_def OPEN_SENTINEL_def)
next
  case (Cons c cs)
  with assms show ?thesis by (simp del: split_first.simps)
qed

lemma exec_configuration_v2_skip:
  assumes "\<not> starts_with OPEN_SENTINEL (c # cs)"
  shows "exec_configuration_v2 (c # cs) = exec_configuration_v2 cs"
  using assms by simp

lemma exec_configuration_v2_first_region:
  assumes "\<not> occurs OPEN_SENTINEL (a @ butlast OPEN_SENTINEL)"
    and "\<not> occurs CLOSE_SENTINEL (y @ butlast CLOSE_SENTINEL)"
  shows "exec_configuration_v2 (a @ OPEN_SENTINEL @ y @ CLOSE_SENTINEL @ b) = Some y"
  using assms(1)
proof (induction a)
  case Nil
  have "CLOSE_SENTINEL \<noteq> []" by (simp add: CLOSE_SENTINEL_def)
  from split_first_append [OF this assms(2), of b]
  have sf: "split_first CLOSE_SENTINEL (y @ CLOSE_SENTINEL @ b) = Some (y, b)" .
  have "starts_with OPEN_SENTINEL (OPEN_SENTINEL @ y @ CLOSE_SENTINEL @ b)" by (simp add: starts_with_def)
  moreover have "split_first CLOSE_SENTINEL
      (drop (length OPEN_SENTINEL) (OPEN_SENTINEL @ y @ CLOSE_SENTINEL @ b)) = Some (y, b)"
    using sf by simp
  ultimately have "exec_configuration_v2 (OPEN_SENTINEL @ y @ CLOSE_SENTINEL @ b) = Some y"
    by (rule exec_configuration_v2_here)
  then show ?case by simp
next
  case (Cons c a)
  from Cons.prems have "\<not> starts_with OPEN_SENTINEL ((c # a) @ OPEN_SENTINEL @ y @ CLOSE_SENTINEL @ b)"
    using starts_with_occurs [of OPEN_SENTINEL "c # a" "y @ CLOSE_SENTINEL @ b"] by blast
  then have "exec_configuration_v2 ((c # a) @ OPEN_SENTINEL @ y @ CLOSE_SENTINEL @ b)
      = exec_configuration_v2 (a @ OPEN_SENTINEL @ y @ CLOSE_SENTINEL @ b)"
    using exec_configuration_v2_skip by simp
  moreover from Cons.prems have "\<not> occurs OPEN_SENTINEL (a @ butlast OPEN_SENTINEL)" by (simp add: occurs_Cons)
  ultimately show ?case using Cons.IH by simp
qed

section \<open>Facts about the lowering\<close>

lemma put_fresh: "k \<notin> fst ` set fs \<Longrightarrow> put k v fs = fs @ [(k, v)]"
  by (induction fs) auto

lemma foldl_put_distinct:
  "distinct (map fst (acc @ es)) \<Longrightarrow> foldl (\<lambda>fs (k, v). put k v fs) acc es = acc @ es"
proof (induction es arbitrary: acc)
  case Nil
  then show ?case by simp
next
  case (Cons e es)
  obtain k v where e: "e = (k, v)" by (cases e)
  from Cons.prems e have "k \<notin> fst ` set acc" by auto
  then have "put k v acc = acc @ [(k, v)]" by (rule put_fresh)
  moreover from Cons.prems e have "distinct (map fst ((acc @ [(k, v)]) @ es))" by simp
  ultimately show ?case using Cons.IH [of "acc @ [(k, v)]"] e by simp
qed

lemma fromEntries_distinct: "distinct (map fst es) \<Longrightarrow> fromEntries es = Obj es"
  using foldl_put_distinct [of "[]" es] by (simp add: fromEntries_def)

lemma mapE_Inr_iff: "mapE f xs = Inr ys \<longleftrightarrow> list_all2 (\<lambda>x y. f x = Inr y) xs ys"
proof (induction xs arbitrary: ys)
  case Nil
  then show ?case by auto
next
  case (Cons x xs)
  show ?case
  proof (cases "f x")
    case (Inl e)
    then show ?thesis by (auto simp: list_all2_Cons1)
  next
    case (Inr y)
    show ?thesis
    proof (cases "mapE f xs")
      case (Inl e)
      with Cons.IH Inr show ?thesis by (auto simp: list_all2_Cons1)
    next
      case r: (Inr zs)
      with Cons.IH Inr show ?thesis by (auto simp: list_all2_Cons1)
    qed
  qed
qed

lemma mapE_total:
  "(\<And>x. x \<in> set xs \<Longrightarrow> \<exists>y. f x = Inr y) \<Longrightarrow> \<exists>ys. mapE f xs = Inr ys"
proof (induction xs)
  case Nil
  then show ?case by simp
next
  case (Cons x xs)
  then obtain y ys where "f x = Inr y" "mapE f xs = Inr ys" by (meson list.set_intros)
  then show ?case by simp
qed

lemma filterE_pure: "(\<And>x. x \<in> set xs \<Longrightarrow> p x = Inr (q x)) \<Longrightarrow> filterE p xs = Inr (filter q xs)"
  by (induction xs) auto

lemma describe_Obj: "\<exists>d. describe (Obj fs) = Inr d"
  by (auto simp: describe_def js_in_Obj simp del: js_in.simps split: option.splits)


lemma get_total: "p \<noteq> Undefined \<Longrightarrow> p \<noteq> Null \<Longrightarrow> \<exists>v. get p k = Inr v"
  by (cases p) (auto split: option.splits)

lemma lowered_not_null:
  assumes "toOpenapiObjectPropertyA c = Inr v"
  shows "c \<noteq> Undefined \<and> c \<noteq> Null"
  using assms by (auto simp: toOpenapiObjectPropertyA.simps)

lemma lowered_names: "lowered es props \<Longrightarrow> map fst props = map fst es"
  unfolding lowered_def by (induction es props rule: list_all2_induct) auto

lemma children_mapE:
  "mapE (\<lambda>(name, model). bindE (toOpenapiObjectPropertyA model) (\<lambda>v. Inr (name, v))) es = Inr props
   \<longleftrightarrow> lowered es props"
proof -
  have "(case e of (name, model) \<Rightarrow> bindE (toOpenapiObjectPropertyA model) (\<lambda>v. Inr (name, v))) = Inr p
        \<longleftrightarrow> fst p = fst e \<and> toOpenapiObjectPropertyA (snd e) = Inr (snd p)" for e p
    by (cases e; cases p; cases "toOpenapiObjectPropertyA (snd e)") auto
  then have "(\<lambda>e p. (case e of (name, model) \<Rightarrow> bindE (toOpenapiObjectPropertyA model) (\<lambda>v. Inr (name, v))) = Inr p)
        = (\<lambda>e p. fst p = fst e \<and> toOpenapiObjectPropertyA (snd e) = Inr (snd p))"
    by (intro ext) 
  then show ?thesis unfolding mapE_Inr_iff lowered_def by (rule arg_cong2 [where f = "\<lambda>R. list_all2 R es", OF _ refl])
qed

lemma children_lower:
  assumes "\<And>n c. (n, c) \<in> set es \<Longrightarrow> \<exists>v. toOpenapiObjectPropertyA c = Inr v"
  shows "\<exists>props. lowered es props"
proof -
  have "\<exists>ys. mapE (\<lambda>(name, model). bindE (toOpenapiObjectPropertyA model) (\<lambda>v. Inr (name, v))) es = Inr ys"
  proof (rule mapE_total)
    fix x assume "x \<in> set es"
    then obtain v where "toOpenapiObjectPropertyA (snd x) = Inr v" using assms [of "fst x" "snd x"] by auto
    then show "\<exists>y. (case x of (name, model) \<Rightarrow> bindE (toOpenapiObjectPropertyA model) (\<lambda>v. Inr (name, v))) = Inr y"
      by (cases x) auto
  qed
  then show ?thesis by (simp add: children_mapE)
qed

lemma required_filter:
  assumes "lowered es props"
  shows "filterE (\<lambda>(_, schema). bindE (get schema ''required'') (\<lambda>r. Inr (r = Bool True))) es
         = Inr (filter (\<lambda>(n, c). get c ''required'' = Inr (Bool True)) es)"
proof (rule filterE_pure)
  fix x assume "x \<in> set es"
  then obtain y where "toOpenapiObjectPropertyA (snd x) = Inr y"
    using assms unfolding lowered_def by (auto simp: list_all2_conv_all_nth in_set_conv_nth)
  then have "snd x \<noteq> Undefined \<and> snd x \<noteq> Null" by (rule lowered_not_null)
  then obtain r where "get (snd x) ''required'' = Inr r" using get_total by blast
  then show "(case x of (_, schema) \<Rightarrow> bindE (get schema ''required'') (\<lambda>r. Inr (r = Bool True)))
             = Inr (case x of (n, c) \<Rightarrow> get c ''required'' = Inr (Bool True))"
    by (cases x) auto
qed

lemma object_lowering:
  assumes "get pm ''keys'' = Inr (Obj es)" and "describe pm = Inr d" and "lowered es props"
  shows "toOpenapiObjectProperty pm =
         Inr (Obj [(''type'', Str ''object''), (''description'', Str d),
                   (''required'', Arr (map (\<lambda>(n, c). Str n)
                        (filter (\<lambda>(n, c). get c ''required'' = Inr (Bool True)) es))),
                   (''properties'', fromEntries props)])"
  using assms
  by (simp add: toOpenapiObjectProperty.simps [of pm] required_filter [OF assms(3)] children_mapE [THEN iffD2])

lemma list_lowering:
  assumes "get pm ''keys'' = Inr (Obj es)" and "describe pm = Inr d" and "lowered es props"
  shows "toOpenapiListProperty pm =
         Inr (Obj [(''description'', Str d), (''type'', Str ''array''), (''items'', fromEntries props)])"
  using assms
  by (simp add: toOpenapiListProperty.simps [of pm] children_mapE [THEN iffD2])

lemma list_lowering_no_keys:
  assumes "get pm ''keys'' = Inr ks" and "\<not> truthy ks" and "describe pm = Inr d"
  shows "toOpenapiListProperty pm =
         Inr (Obj [(''description'', Str d), (''type'', Str ''array''),
                   (''items'', Obj [(''type'', Str ''string'')])])"
  using assms by (simp add: toOpenapiListProperty.simps [of pm])

lemma well_formed_lowers: "well_formed p \<Longrightarrow> \<exists>v. toOpenapiObjectPropertyA p = Inr v"
proof (induction p rule: well_formed.induct)
  case (1 fs)
  obtain d where d: "describe (Obj fs) = Inr d" using describe_Obj by blast
  show ?case
  proof (cases "map_of fs ''keys''")
    case None
    then have k: "get (Obj fs) ''keys'' = Inr Undefined" by simp
    from None "1.prems" obtain t where t: "map_of fs ''type'' = Some t" "t \<noteq> Undefined" "t \<noteq> Str ''map''"
      by auto
    then show ?thesis
      using d list_lowering_no_keys [OF k _ d]
      by (auto simp: toOpenapiObjectPropertyA.simps [of "Obj fs"])
  next
    case (Some ks)
    with "1.prems" obtain es where es: "ks = Obj es" and wf: "list_all (\<lambda>(n, c). well_formed c) es"
      by (cases ks) auto
    have "\<exists>v. toOpenapiObjectPropertyA c = Inr v" if "(n, c) \<in> set es" for n c
      using "1.IH" [OF Some es that refl] wf that by (auto simp: list_all_iff)
    then obtain props where props: "lowered es props" using children_lower by blast
    have k: "get (Obj fs) ''keys'' = Inr (Obj es)" using Some es by simp
    show ?thesis
      using d object_lowering [OF k d props] list_lowering [OF k d props]
      by (auto simp: toOpenapiObjectPropertyA.simps [of "Obj fs"] split: option.splits)
  qed
qed simp_all


lemma well_formed_children:
  assumes "list_all (\<lambda>(n, c). well_formed c) es"
  shows "\<exists>props. lowered es props"
proof (rule children_lower)
  fix n c assume "(n, c) \<in> set es"
  with assms have "well_formed c" by (auto simp: list_all_iff)
  then show "\<exists>v. toOpenapiObjectPropertyA c = Inr v" by (rule well_formed_lowers)
qed

lemma lowered_map_of:
  "lowered es props \<Longrightarrow> map_of es k = Some c \<Longrightarrow>
   \<exists>v. map_of props k = Some v \<and> toOpenapiObjectPropertyA c = Inr v"
  unfolding lowered_def
  by (induction es props rule: list_all2_induct) (auto split: if_splits)

lemma lowered_filter_names:
  "lowered es props \<Longrightarrow>
   map fst (filter (\<lambda>(name, _). P name) props) = filter P (map fst es)"
  unfolding lowered_def
  by (induction es props rule: list_all2_induct) (auto split: prod.splits)


text \<open>
  C4. For every attribute record whose type tag is \<^verbatim>\<open>list\<close>: without \<^verbatim>\<open>keys\<close> the
  lowering produces the array schema with the items \<^verbatim>\<open>{type: "string"}\<close> and the
  synthesized description; with the mapping \<open>es\<close> as \<^verbatim>\<open>keys\<close> it produces the array
  schema whose items is the bare mapping from the names of the children to their lowered
  schemas, with no object schema around it.
\<close>

theorem list_node_shape:
  assumes "get (Obj fs) ''type'' = Inr (Str ''list'')"
  shows "(map_of fs ''keys'' = None \<longrightarrow>
           (\<exists>d. describe (Obj fs) = Inr d
              \<and> toOpenapiObjectPropertyA (Obj fs) =
                  Inr (Obj [(''description'', Str d), (''type'', Str ''array''),
                            (''items'', Obj [(''type'', Str ''string'')])])))
       \<and> (map_of fs ''keys'' = Some (Obj es) \<and> distinct (map fst es)
            \<and> list_all (\<lambda>(n, c). well_formed c) es \<longrightarrow>
           (\<exists>d props. describe (Obj fs) = Inr d \<and> lowered es props
              \<and> toOpenapiObjectPropertyA (Obj fs) =
                  Inr (Obj [(''description'', Str d), (''type'', Str ''array''),
                            (''items'', Obj props)])))"
proof (intro conjI impI)
  obtain d where d: "describe (Obj fs) = Inr d" using describe_Obj by blast
  {
    assume "map_of fs ''keys'' = None"
    then have "get (Obj fs) ''keys'' = Inr Undefined" by simp
    from list_lowering_no_keys [OF this _ d] assms d
    show "\<exists>d. describe (Obj fs) = Inr d
              \<and> toOpenapiObjectPropertyA (Obj fs) =
                  Inr (Obj [(''description'', Str d), (''type'', Str ''array''),
                            (''items'', Obj [(''type'', Str ''string'')])])"
      by (simp add: toOpenapiObjectPropertyA.simps [of "Obj fs"])
  next
    assume a: "map_of fs ''keys'' = Some (Obj es) \<and> distinct (map fst es)
            \<and> list_all (\<lambda>(n, c). well_formed c) es"
    then obtain props where props: "lowered es props" using well_formed_children by blast
    then have "map fst props = map fst es" by (rule lowered_names)
    with a have fe: "fromEntries props = Obj props" by (simp add: fromEntries_distinct)
    from a have "get (Obj fs) ''keys'' = Inr (Obj es)" by simp
    from list_lowering [OF this d props] assms d props fe
    show "\<exists>d props. describe (Obj fs) = Inr d \<and> lowered es props
              \<and> toOpenapiObjectPropertyA (Obj fs) =
                  Inr (Obj [(''description'', Str d), (''type'', Str ''array''),
                            (''items'', Obj props)])"
      by (auto simp: toOpenapiObjectPropertyA.simps [of "Obj fs"])
  }
qed



theorem list_node_shape_witness:
  "(\<exists>d. describe (Obj [(''type'', Str ''list''), (''description'', Str ''Options.'')]) = Inr d
      \<and> toOpenapiObjectPropertyA (Obj [(''type'', Str ''list''), (''description'', Str ''Options.'')]) =
          Inr (Obj [(''description'', Str d), (''type'', Str ''array''),
                    (''items'', Obj [(''type'', Str ''string'')])]))
   \<and> (\<exists>d props. describe (Obj [(''type'', Str ''list''),
                                  (''keys'', Obj [(''topic'', Obj [(''type'', Str ''string'')])])]) = Inr d
      \<and> lowered [(''topic'', Obj [(''type'', Str ''string'')])] props
      \<and> toOpenapiObjectPropertyA (Obj [(''type'', Str ''list''),
                                  (''keys'', Obj [(''topic'', Obj [(''type'', Str ''string'')])])]) =
          Inr (Obj [(''description'', Str d), (''type'', Str ''array''), (''items'', Obj props)]))"
proof -
  have a: "get (Obj [(''type'', Str ''list''), (''description'', Str ''Options.'')]) ''type'' = Inr (Str ''list'')"
    by simp
  have b: "get (Obj [(''type'', Str ''list''),
                     (''keys'', Obj [(''topic'', Obj [(''type'', Str ''string'')])])]) ''type'' = Inr (Str ''list'')"
    by simp
  from list_node_shape [OF a, of "[]"] list_node_shape [OF b, of "[(''topic'', Obj [(''type'', Str ''string'')])]"]
  show ?thesis by simp
qed


lemma filter_distinct_fst: "distinct (map fst xs) \<Longrightarrow> distinct (map fst (filter P xs))"
  by (induction xs) auto



section \<open>Facts about the typed-model lowering\<close>

lemma map_of_put: "map_of (put k v fs) k' = (if k' = k then Some v else map_of fs k')"
  by (induction fs) auto

lemma set_prop_get:
  "set_prop a k v = Inr a' \<Longrightarrow> k' \<noteq> k \<Longrightarrow> k' \<noteq> ''keys'' \<Longrightarrow> get a' k' = get a k'"
  by (cases a) (auto simp: map_of_put)

lemma set_prop_get_keys:
  "set_prop a k v = Inr a' \<Longrightarrow> k \<noteq> ''keys'' \<Longrightarrow> get a' ''keys'' = get a ''keys''"
  by (cases a) (auto simp: map_of_put)

lemma set_put: "set (put k v fs) \<subseteq> insert (k, v) (set fs)"
  by (induction fs) (auto split: if_splits)

lemma set_foldl_put: "set (foldl (\<lambda>fs (k, v). put k v fs) acc es) \<subseteq> set acc \<union> set es"
proof (induction es arbitrary: acc)
  case Nil
  then show ?case by simp
next
  case (Cons e es)
  obtain k v where e: "e = (k, v)" by (cases e)
  have "set (foldl (\<lambda>fs (k, v). put k v fs) (put k v acc) es) \<subseteq> set (put k v acc) \<union> set es"
    by (rule Cons.IH)
  also have "\<dots> \<subseteq> set acc \<union> set ((k, v) # es)" using set_put [of k v acc] by auto
  finally show ?case using e by simp
qed

lemma fromEntries_subset: "fromEntries es = Obj fs \<Longrightarrow> set fs \<subseteq> set es"
  using set_foldl_put [of "[]" es] by (auto simp: fromEntries_def)

lemma filterE_member:
  "filterE p xs = Inr ys \<Longrightarrow> x \<in> set ys \<Longrightarrow> x \<in> set xs \<and> p x = Inr True"
proof (induction xs arbitrary: ys)
  case Nil
  then show ?case by simp
next
  case (Cons z zs)
  from Cons.prems(1) obtain b ws where b: "p z = Inr b" and ws: "filterE p zs = Inr ws"
    and ys: "ys = (if b then z # ws else ws)"
    by (cases "p z"; cases "filterE p zs") auto
  show ?case
  proof (cases "x \<in> set ws")
    case True
    with Cons.IH [OF ws] show ?thesis by simp
  next
    case False
    with Cons.prems(2) ys have "b" "x = z" by (auto split: if_splits)
    with b show ?thesis by simp
  qed
qed

lemma mapE_member:
  "mapE f xs = Inr ys \<Longrightarrow> y \<in> set ys \<Longrightarrow> \<exists>x \<in> set xs. f x = Inr y"
  unfolding mapE_Inr_iff
  by (induction xs ys rule: list_all2_induct) auto

lemma setRustSafeName_get:
  "setRustSafeName n a = Inr a' \<Longrightarrow> k \<noteq> ''rustSafeName'' \<Longrightarrow> k \<noteq> ''keys'' \<Longrightarrow> get a' k = get a k"
  unfolding setRustSafeName_def by (rule set_prop_get)

lemma bindE_eq_Inr: "bindE m f = Inr y \<longleftrightarrow> (\<exists>x. m = Inr x \<and> f x = Inr y)"
  by (cases m) auto

lemma set_prop2_get:
  assumes "bindE (set_prop a k1 v1) (\<lambda>b. set_prop b k2 v2) = Inr a'"
    and "k \<noteq> k1" "k \<noteq> k2" "k \<noteq> ''keys''"
  shows "get a' k = get a k"
proof -
  from assms(1) obtain b where b: "set_prop a k1 v1 = Inr b" "set_prop b k2 v2 = Inr a'"
    by (auto simp: bindE_eq_Inr)
  then show ?thesis using assms(2-4) set_prop_get [of a k1 v1 b k] set_prop_get [of b k2 v2 a' k] by simp
qed

lemma set_prop3_get:
  assumes "bindE (set_prop a k1 v1) (\<lambda>b. bindE (set_prop b k2 v2) (\<lambda>c. set_prop c k3 v3)) = Inr a'"
    and "k \<noteq> k1" "k \<noteq> k2" "k \<noteq> k3" "k \<noteq> ''keys''"
  shows "get a' k = get a k"
proof -
  from assms(1) obtain b where b: "set_prop a k1 v1 = Inr b"
      "bindE (set_prop b k2 v2) (\<lambda>c. set_prop c k3 v3) = Inr a'"
    by (auto simp: bindE_eq_Inr)
  then show ?thesis using assms(2-5) set_prop_get [of a k1 v1 b k] set_prop2_get [of b k2 v2 k3 v3 a' k] by simp
qed

lemma rustTypeByTag_get:
  assumes "rustTypeByTag a = Inr a'" and "k \<noteq> ''rustType''" "k \<noteq> ''useInto''" "k \<noteq> ''keys''"
  shows "get a' k = get a k"
proof -
  from assms(1) obtain t where t: "get a ''type'' = Inr t"
    unfolding rustTypeByTag_def by (auto simp: bindE_eq_Inr)
  consider (s) "t = Str ''template'' \<or> t = Str ''string'' \<or> t = Str ''icon''"
    | (f) "t = Str ''float''" | (i) "t = Str ''integer''" | (b) "t = Str ''boolean''"
    | (o) "t \<notin> {Str ''template'', Str ''string'', Str ''icon'', Str ''float'', Str ''integer'', Str ''boolean''}"
    by auto
  then show ?thesis
  proof cases
    case s
    with assms(1) t have "bindE (set_prop a ''rustType'' (Str ''String'')) (\<lambda>b. set_prop b ''useInto'' (Bool True)) = Inr a'"
      unfolding rustTypeByTag_def by auto
    then show ?thesis using assms(2-4) by (rule set_prop2_get)
  next
    case f
    with assms(1) t have "set_prop a ''rustType'' (Str ''f32'') = Inr a'"
      unfolding rustTypeByTag_def by simp
    then show ?thesis using assms(2,4) by (rule set_prop_get)
  next
    case i
    with assms(1) t have "set_prop a ''rustType'' (Str ''i32'') = Inr a'"
      unfolding rustTypeByTag_def by simp
    then show ?thesis using assms(2,4) by (rule set_prop_get)
  next
    case b
    with assms(1) t have "set_prop a ''rustType'' (Str ''bool'') = Inr a'"
      unfolding rustTypeByTag_def by simp
    then show ?thesis using assms(2,4) by (rule set_prop_get)
  next
    case o
    with assms(1) t obtain inc where "js_includes t ''list'' = Inr inc"
      "(if inc then set_prop a ''rustType'' (Str ''Vec<String>'') else Inr a) = Inr a'"
      unfolding rustTypeByTag_def by (auto simp: bindE_eq_Inr)
    then show ?thesis using assms(2,4) set_prop_get [of a "''rustType''" "Str ''Vec<String>''" a' k]
      by (cases inc) auto
  qed
qed


lemma rustTypeByTag_v2_get:
  assumes "rustTypeByTag_v2 a = Inr a'"
    and "k \<noteq> ''rustType''" "k \<noteq> ''useInto''" "k \<noteq> ''iterable''" "k \<noteq> ''keys''"
    and "k = ''import'' \<Longrightarrow> get a ''type'' \<noteq> Inr (Str ''float'')"
  shows "get a' k = get a k"
proof -
  from assms(1) obtain t where t: "get a ''type'' = Inr t"
    unfolding rustTypeByTag_v2_def by (auto simp: bindE_eq_Inr)
  consider (s) "t = Str ''template'' \<or> t = Str ''string'' \<or> t = Str ''icon''"
    | (f) "t = Str ''float''" | (i) "t = Str ''integer''" | (b) "t = Str ''boolean''"
    | (l) "t = Str ''list''"
    | (o) "t \<notin> {Str ''template'', Str ''string'', Str ''icon'', Str ''float'', Str ''integer'',
                   Str ''boolean'', Str ''list''}"
    by auto
  then show ?thesis
  proof cases
    case s
    with assms(1) t have "bindE (set_prop a ''rustType'' (Str ''String'')) (\<lambda>b. set_prop b ''useInto'' (Bool True)) = Inr a'"
      unfolding rustTypeByTag_v2_def by auto
    then show ?thesis using assms(2,3,5) by (rule set_prop2_get)
  next
    case f
    with assms(1) t have "bindE (set_prop a ''rustType'' (Str ''Decimal''))
        (\<lambda>b. set_prop b ''import'' (Str ''pub use rust_decimal::Decimal'')) = Inr a'"
      unfolding rustTypeByTag_v2_def by simp
    moreover from f t assms(6) have "k \<noteq> ''import''" by auto
    ultimately show ?thesis using assms(2,5) set_prop2_get by blast
  next
    case i
    with assms(1) t have "set_prop a ''rustType'' (Str ''i32'') = Inr a'"
      unfolding rustTypeByTag_v2_def by simp
    then show ?thesis using assms(2,5) by (rule set_prop_get)
  next
    case b
    with assms(1) t have "set_prop a ''rustType'' (Str ''bool'') = Inr a'"
      unfolding rustTypeByTag_v2_def by simp
    then show ?thesis using assms(2,5) by (rule set_prop_get)
  next
    case l
    with assms(1) t obtain ks where "get a ''keys'' = Inr ks"
      "(if \<not> truthy ks
        then bindE (set_prop a ''rustType'' (Str ''String'')) (\<lambda>b.
             bindE (set_prop b ''iterable'' (Bool True)) (\<lambda>c. set_prop c ''useInto'' (Bool True)))
        else Inr a) = Inr a'"
      unfolding rustTypeByTag_v2_def by (auto simp: bindE_eq_Inr)
    then show ?thesis
      using assms(2-5) set_prop3_get [of a "''rustType''" "Str ''String''" "''iterable''" "Bool True"
          "''useInto''" "Bool True" a' k]
      by (cases "truthy ks") auto
  next
    case o
    with assms(1) t obtain inc where "js_includes t ''list'' = Inr inc"
      "(if inc
        then bindE (set_prop a ''rustType'' (Str ''String'')) (\<lambda>b.
             bindE (set_prop b ''iterable'' (Bool True)) (\<lambda>c. set_prop c ''useInto'' (Bool True)))
        else Inr a) = Inr a'"
      unfolding rustTypeByTag_v2_def by (auto simp: bindE_eq_Inr)
    then show ?thesis
      using assms(2-5) set_prop3_get [of a "''rustType''" "Str ''String''" "''iterable''" "Bool True"
          "''useInto''" "Bool True" a' k]
      by (cases inc) auto
  qed
qed

lemma deviceClassOverride_get:
  assumes "deviceClassOverride a = Inr a'" and "k \<noteq> ''rustType''" "k \<noteq> ''import''" "k \<noteq> ''keys''"
  shows "get a' k = get a k"
proof -
  from assms(1) obtain d where d: "get a ''description'' = Inr d"
    unfolding deviceClassOverride_def by (auto simp: bindE_eq_Inr)
  show ?thesis
  proof (cases "find_anchor (to_string d)")
    case None
    with assms(1) d show ?thesis unfolding deviceClassOverride_def by simp
  next
    case (Some n)
    show ?thesis
    proof (cases "n = []")
      case True
      with assms(1) d Some show ?thesis unfolding deviceClassOverride_def by simp
    next
      case False
      with assms(1) d Some have "bindE (set_prop a ''rustType'' (Str (toPascalCase n @ ''DeviceClass'')))
          (\<lambda>b. set_prop b ''import'' (Str (''use super::device_classes::'' @ toPascalCase n @ ''DeviceClass''))) = Inr a'"
        unfolding deviceClassOverride_def by (simp add: Let_def)
      then show ?thesis using assms(2-4) by (rule set_prop2_get)
    qed
  qed
qed

lemma rustTypeByName_get:
  assumes "rustTypeByName n a = Inr a'" and "k \<noteq> ''rustType''" "k \<noteq> ''import''" "k \<noteq> ''keys''"
  shows "get a' k = get a k"
  using assms set_prop2_get [of a "''rustType''" _ "''import''" _ a' k] deviceClassOverride_get [of a a' k]
  unfolding rustTypeByName_def by (auto split: if_splits)

lemma appendRustType_type:
  assumes "appendRustType n a = Inr a'"
  shows "get a' ''type'' = get a ''type''"
proof -
  from assms obtain a1 a2 where s: "setRustSafeName n a = Inr a1" "rustTypeByTag a1 = Inr a2"
      "rustTypeByName n a2 = Inr a'"
    unfolding appendRustType_def by (auto simp: bindE_eq_Inr)
  have "get a1 ''type'' = get a ''type''" using s(1) by (rule setRustSafeName_get) simp_all
  moreover have "get a2 ''type'' = get a1 ''type''" using s(2) by (rule rustTypeByTag_get) simp_all
  moreover have "get a' ''type'' = get a2 ''type''" using s(3) by (rule rustTypeByName_get) simp_all
  ultimately show ?thesis by simp
qed


lemma typedEntries_member:
  assumes "typedEntries ignored md = Inr es" and "(n, a) \<in> set es"
  shows "n \<notin> set ignored \<and> get a ''type'' \<noteq> Inr (Str ''list'') \<and> get a ''type'' \<noteq> Inr (Str ''map'')
         \<and> (\<exists>raw rs. entries md = Inr rs \<and> (n, raw) \<in> set rs \<and> appendRustType n raw = Inr a
                \<and> get raw ''type'' = get a ''type'')"
proof -
  let ?p = "\<lambda>(name, attrs). bindE (get attrs ''type'') (\<lambda>t. Inr (\<not> (t = Str ''list'' \<or> t = Str ''map'')))"
  let ?f = "\<lambda>(name, attrs). bindE (appendRustType name attrs) (\<lambda>a. Inr (name, a))"
  from assms(1) obtain rs es1 where rs: "entries md = Inr rs" and es1: "filterE ?p rs = Inr es1"
    and m: "mapE ?f (filter (\<lambda>(name, attrs). name \<notin> set ignored) es1) = Inr es"
    unfolding typedEntries_def by (auto simp: bindE_eq_Inr)
  from mapE_member [OF m assms(2)] obtain x where x: "x \<in> set es1" "fst x \<notin> set ignored" "?f x = Inr (n, a)"
    by auto
  obtain n' raw where xr: "x = (n', raw)" by (cases x)
  with x(3) have ar: "n' = n" "appendRustType n raw = Inr a" by (auto simp: bindE_eq_Inr)
  from filterE_member [OF es1 x(1)] xr ar have mem: "(n, raw) \<in> set rs" and p: "?p (n, raw) = Inr True" by auto
  from p obtain t where t: "get raw ''type'' = Inr t" "t \<noteq> Str ''list''" "t \<noteq> Str ''map''"
    by (auto simp: bindE_eq_Inr)
  have ty: "get a ''type'' = get raw ''type''" using ar(2) by (rule appendRustType_type)
  from x(2) xr ar(1) have "n \<notin> set ignored" by simp
  with t ty rs mem ar(2) show ?thesis by auto
qed

lemma typedEntries_v2_member:
  assumes "typedEntries_v2 ignored md = Inr es" and "(n, a) \<in> set es"
  shows "n \<notin> set ignored"
proof -
  let ?f = "\<lambda>(name, attrs). bindE (appendRustType_v2 name attrs) (\<lambda>a. Inr (name, a))"
  from assms(1) obtain rs where m: "mapE ?f (filter (\<lambda>(name, attrs). name \<notin> set ignored) rs) = Inr es"
    unfolding typedEntries_v2_def by (auto simp: bindE_eq_Inr)
  from mapE_member [OF m assms(2)] obtain x where x: "fst x \<notin> set ignored" "?f x = Inr (n, a)"
    by auto
  then show ?thesis by (cases x) (auto simp: bindE_eq_Inr)
qed



lemmas entity_defs =
  generateMqttEntityModel_def generateMqttEntityModelWith_def
  generateMqttEntityModel_v2_def generateMqttEntityModelWith_v2_def
  readFileSync_def OPEN_SENTINEL_def CLOSE_SENTINEL_def starts_with_def
  typedEntries_def typedEntries_v2_def appendRustType_def appendRustType_v2_def
  setRustSafeName_def rustTypeByTag_def rustTypeByTag_v2_def rustTypeByName_def rustTypeByName_v2_def
  fromEntries_def IGNORED_ATTRS_def IGNORED_ATTRS_v2_def new_Set_def




lemma anchor_here_SomeD:
  assumes "anchor_here s = Some n"
  shows "\<exists>b. s = ''/integrations/'' @ n @ ''/#device-class'' @ b \<and> CHR ''/'' \<notin> set n"
proof -
  let ?r = "drop (length ''/integrations/'') s"
  from assms have st: "starts_with ''/integrations/'' s"
    and an: "starts_with ''/#device-class'' (dropWhile (\<lambda>c. c \<noteq> CHR ''/'') ?r)"
    and n: "n = takeWhile (\<lambda>c. c \<noteq> CHR ''/'') ?r"
    unfolding anchor_here_def by (auto simp: Let_def split: if_splits)
  from starts_with_drop [OF st] have s: "s = ''/integrations/'' @ ?r" by simp
  from an obtain b where b: "dropWhile (\<lambda>c. c \<noteq> CHR ''/'') ?r = ''/#device-class'' @ b"
    by (auto simp: starts_with_iff)
  have "?r = takeWhile (\<lambda>c. c \<noteq> CHR ''/'') ?r @ dropWhile (\<lambda>c. c \<noteq> CHR ''/'') ?r" by simp
  with n b have "?r = n @ ''/#device-class'' @ b" by simp
  with s have "s = ''/integrations/'' @ n @ ''/#device-class'' @ b" by metis
  moreover from n have "CHR ''/'' \<notin> set n" by (auto dest: set_takeWhileD)
  ultimately show ?thesis by blast
qed

lemma find_anchor_SomeD:
  "find_anchor s = Some n \<Longrightarrow>
   \<exists>a b. s = a @ ''/integrations/'' @ n @ ''/#device-class'' @ b \<and> CHR ''/'' \<notin> set n"
proof (induction s)
  case Nil
  then show ?case by simp
next
  case (Cons c cs)
  show ?case
  proof (cases "anchor_here (c # cs)")
    case None
    with Cons.prems have "find_anchor cs = Some n" by simp
    from Cons.IH [OF this] obtain a b where "cs = a @ ''/integrations/'' @ n @ ''/#device-class'' @ b"
      "CHR ''/'' \<notin> set n" by blast
    then have "c # cs = (c # a) @ ''/integrations/'' @ n @ ''/#device-class'' @ b \<and> CHR ''/'' \<notin> set n"
      by simp
    then show ?thesis by blast
  next
    case (Some m)
    with Cons.prems have "m = n" by simp
    with Some anchor_here_SomeD [of "c # cs" n] obtain b where
      "c # cs = [] @ ''/integrations/'' @ n @ ''/#device-class'' @ b \<and> CHR ''/'' \<notin> set n" by auto
    then show ?thesis by blast
  qed
qed


lemma anchor_here_SomeI:
  assumes "CHR ''/'' \<notin> set n"
  shows "anchor_here (''/integrations/'' @ n @ ''/#device-class'' @ b) = Some n"
proof -
  from assms have "takeWhile (\<lambda>c. c \<noteq> CHR ''/'') (n @ ''/#device-class'' @ b) = n"
    by (induction n) auto
  moreover from assms have "dropWhile (\<lambda>c. c \<noteq> CHR ''/'') (n @ ''/#device-class'' @ b) = ''/#device-class'' @ b"
    by (induction n) auto
  ultimately show ?thesis by (simp add: anchor_here_def starts_with_def)
qed

lemma find_anchor_append:
  assumes "CHR ''/'' \<notin> set n"
  shows "find_anchor (a @ ''/integrations/'' @ n @ ''/#device-class'' @ b) \<noteq> None"
proof (induction a)
  case Nil
  from anchor_here_SomeI [OF assms, of b] show ?case by simp
next
  case (Cons c a)
  then show ?case by (simp split: option.splits)
qed

lemma find_anchor_None_iff:
  "find_anchor s = None \<longleftrightarrow>
   \<not> (\<exists>a n b. s = a @ ''/integrations/'' @ n @ ''/#device-class'' @ b \<and> CHR ''/'' \<notin> set n)"
proof
  assume "find_anchor s = None"
  then show "\<not> (\<exists>a n b. s = a @ ''/integrations/'' @ n @ ''/#device-class'' @ b \<and> CHR ''/'' \<notin> set n)"
    using find_anchor_append by blast
next
  assume "\<not> (\<exists>a n b. s = a @ ''/integrations/'' @ n @ ''/#device-class'' @ b \<and> CHR ''/'' \<notin> set n)"
  then show "find_anchor s = None"
    using find_anchor_SomeD [of s] by (cases "find_anchor s") auto
qed

lemma deviceClassOverride_no_anchor:
  "get a ''description'' = Inr d \<Longrightarrow> find_anchor (to_string d) = None \<Longrightarrow> deviceClassOverride a = Inr a"
  by (simp add: deviceClassOverride_def)



section \<open>Facts about the device classes\<close>

lemma to_lower_fixed [simp]: "to_lower (CHR ''#'') = CHR ''#''" "to_lower (CHR 0x0A) = CHR 0x0A"
  by (simp_all add: to_lower_def)

lemma is_headingD:
  assumes "is_heading (u @ t)"
  shows "\<exists>h w t'. u @ t = ''##'' @ h @ w @ t' \<and> (\<forall>c \<in> set h. c = CHR ''#'') \<and> map to_lower w = '' device class''"
  using assms unfolding is_heading_def by blast

lemma lower_no_newline: assumes w: "map to_lower w = '' device class''" shows "CHR 0x0A \<notin> set w"
  proof
    assume "CHR 0x0A \<in> set w"
    then have "to_lower (CHR 0x0A) \<in> set (map to_lower w)" by (metis image_eqI set_map)
    then have "CHR 0x0A \<in> set '' device class''" by (simp only: w to_lower_fixed)
    then show False by simp
  qed

lemma heading_no_newline: assumes h: "\<forall>c \<in> set h. c = CHR ''#''" and "CHR 0x0A \<notin> set w"
  shows "CHR 0x0A \<notin> set (''##'' @ h @ w)"
  using assms by auto

lemma is_headingI: assumes "u = ''##'' @ h @ w @ v" and h: "\<forall>c \<in> set h. c = CHR ''#''" and w: "map to_lower w = '' device class''"
  shows "is_heading u"
  unfolding is_heading_def using assms by (intro exI conjI)

lemma append_split: assumes s: "u @ t = (''##'' @ h @ w) @ t'"
  shows "\<exists>v. u = (''##'' @ h @ w) @ v \<or> u @ v = ''##'' @ h @ w"
  using append_eq_append_conv2 [THEN iffD1, OF s] by blast


lemma is_heading_prefix:
  assumes "is_heading (u @ t)" and "u \<noteq> []" and "last u = CHR 0x0A"
  shows "is_heading u"
proof -
  from is_headingD [OF assms(1)] obtain h w t' where s0: "u @ t = ''##'' @ h @ w @ t'"
    and h: "\<forall>c \<in> set h. c = CHR ''#''" and w: "map to_lower w = '' device class''"
    by (elim exE conjE)
  from s0 have s: "u @ t = (''##'' @ h @ w) @ t'" by simp
  from heading_no_newline [OF h lower_no_newline [OF w]] have nl: "CHR 0x0A \<notin> set (''##'' @ h @ w)" .
  from append_split [OF s] obtain v where "u = (''##'' @ h @ w) @ v \<or> u @ v = ''##'' @ h @ w"
    by (elim exE)
  then show ?thesis
  proof (elim disjE)
    assume "u = (''##'' @ h @ w) @ v"
    then have "u = ''##'' @ h @ w @ v" by simp
    from is_headingI [OF this h w] show ?thesis .
  next
    assume e: "u @ v = ''##'' @ h @ w"
    from assms(2) have "last u \<in> set u" by (rule last_in_set)
    with assms(3) have "CHR 0x0A \<in> set (u @ v)" by simp
    with e nl show ?thesis by simp
  qed
qed


lemma heading_here_unfold:
  "heading_here s =
     (if starts_with ''##'' s
      then if map to_lower (take (length '' device class'') (dropWhile (\<lambda>c. c = CHR ''#'') (drop 2 s)))
              = '' device class''
           then Some (if map to_lower (take 2 (drop (length '' device class'')
                            (dropWhile (\<lambda>c. c = CHR ''#'') (drop 2 s)))) = ''es''
                      then drop 2 (drop (length '' device class'') (dropWhile (\<lambda>c. c = CHR ''#'') (drop 2 s)))
                      else drop (length '' device class'') (dropWhile (\<lambda>c. c = CHR ''#'') (drop 2 s)))
           else None
      else None)"
  unfolding heading_here_def Let_def ..

lemma heading_here_SomeI:
  assumes "is_heading s"
  shows "heading_here s \<noteq> None"
proof -
  from assms obtain h w t where s: "s = ''##'' @ h @ w @ t" and h: "\<forall>c \<in> set h. c = CHR ''#''"
    and w: "map to_lower w = '' device class''"
    unfolding is_heading_def by (elim exE conjE)
  from w have "length (map to_lower w) = length '' device class''" by (rule arg_cong)
  then have lw: "length w = length '' device class''" by (simp only: length_map)
  then have "w \<noteq> []" by auto
  then obtain w0 w' where w0: "w = w0 # w'" by (cases w) auto
  with w have "to_lower w0 = CHR '' ''" by simp
  then have "w0 \<noteq> CHR ''#''" by auto
  with w0 have "dropWhile (\<lambda>c. c = CHR ''#'') (w @ t) = w @ t" by simp
  with h have dw: "dropWhile (\<lambda>c. c = CHR ''#'') (h @ w @ t) = w @ t"
    by (simp add: dropWhile_append2)
  have st: "starts_with ''##'' s" using s by (simp add: starts_with_def)
  have d2: "drop 2 s = h @ w @ t" using s by simp
  have tw: "take (length '' device class'') (w @ t) = w" using lw by simp
  show ?thesis
    by (simp only: heading_here_unfold st d2 dw tw w if_True simp_thms option.distinct)
qed

lemma heading_here_SomeD:
  assumes "heading_here s \<noteq> None"
  shows "is_heading s"
proof -
  let ?d = "drop 2 s"
  let ?r = "dropWhile (\<lambda>c. c = CHR ''#'') ?d"
  let ?n = "length '' device class''"
  have st: "starts_with ''##'' s"
  proof (rule ccontr)
    assume "\<not> starts_with ''##'' s"
    then have "heading_here s = None" by (simp only: heading_here_unfold if_False)
    with assms show False by (rule notE)
  qed
  have w: "map to_lower (take ?n ?r) = '' device class''"
  proof (rule ccontr)
    assume "map to_lower (take ?n ?r) \<noteq> '' device class''"
    then have "heading_here s = None" by (simp only: heading_here_unfold st if_True if_False)
    with assms show False by (rule notE)
  qed
  from starts_with_drop [OF st] have "s = ''##'' @ ?d" by (simp add: numeral_2_eq_2)
  also have "?d = takeWhile (\<lambda>c. c = CHR ''#'') ?d @ ?r" by (rule takeWhile_dropWhile_id [symmetric])
  also have "?r = take ?n ?r @ drop ?n ?r" by (rule append_take_drop_id [symmetric])
  finally have e: "s = ''##'' @ takeWhile (\<lambda>c. c = CHR ''#'') ?d @ take ?n ?r @ drop ?n ?r" .
  have "\<forall>c \<in> set (takeWhile (\<lambda>c. c = CHR ''#'') ?d). c = CHR ''#''"
    by (auto dest: set_takeWhileD)
  from is_headingI [OF e this w] show ?thesis .
qed


lemma find_heading_append:
  "find_heading b pre = None \<Longrightarrow> pre \<noteq> [] \<Longrightarrow> last pre = CHR 0x0A \<Longrightarrow>
   find_heading b (pre @ rest) = find_heading True rest"
proof (induction pre arbitrary: b)
  case Nil
  then show ?case by simp
next
  case (Cons c cs)
  have here: "heading_here (c # cs @ rest) = None" if b
  proof -
    from that Cons.prems(1) have "heading_here (c # cs) = None" by (simp split: option.splits)
    then have "\<not> is_heading (c # cs)" using heading_here_SomeI by blast
    then have "\<not> is_heading ((c # cs) @ rest)" using is_heading_prefix [of "c # cs" rest] Cons.prems(3) by blast
    then have "heading_here ((c # cs) @ rest) = None" using heading_here_SomeD by blast
    then show ?thesis by simp
  qed
  have step: "find_heading b ((c # cs) @ rest) = find_heading (is_line_terminator c) (cs @ rest)"
    using here by (cases b) simp_all
  from Cons.prems(1) have rec: "find_heading (is_line_terminator c) cs = None"
    by (simp split: option.splits)
  show ?case
  proof (cases "cs = []")
    case True
    with Cons.prems(3) have "is_line_terminator c" by (simp add: is_line_terminator_def)
    with step True show ?thesis by simp
  next
    case False
    with Cons.prems(3) have "last cs = CHR 0x0A" by simp
    from Cons.IH [OF rec False this] step show ?thesis by simp
  qed
qed


lemma to_lower_chars:
  "to_lower (CHR '' '') = CHR '' ''" "to_lower (CHR ''D'') = CHR ''d''" "to_lower (CHR ''C'') = CHR ''c''"
  "to_lower (CHR ''e'') = CHR ''e''" "to_lower (CHR ''v'') = CHR ''v''" "to_lower (CHR ''i'') = CHR ''i''"
  "to_lower (CHR ''c'') = CHR ''c''" "to_lower (CHR ''l'') = CHR ''l''" "to_lower (CHR ''a'') = CHR ''a''"
  "to_lower (CHR ''s'') = CHR ''s''" "to_lower (CHR ''-'') = CHR ''-''"
  by code_simp+

lemma example_heading:
  "find_heading True (''### Device Class'' @ [CHR 0x0A] @ ''- `motion`: Motion detected.'' @ [CHR 0x0A]
       @ ''- `door`: Door opened.'' @ [CHR 0x0A] @ ''### Other Section'' @ post)
   = Some ([CHR 0x0A] @ ''- `motion`: Motion detected.'' @ [CHR 0x0A]
       @ ''- `door`: Door opened.'' @ [CHR 0x0A] @ ''### Other Section'' @ post)"
  by (simp add: heading_here_unfold starts_with_def to_lower_chars)

lemma example_cut:
  "cut_at_heading True ([CHR 0x0A] @ ''- `motion`: Motion detected.'' @ [CHR 0x0A]
       @ ''- `door`: Door opened.'' @ [CHR 0x0A] @ ''### Other Section'' @ post)
   = [CHR 0x0A] @ ''- `motion`: Motion detected.'' @ [CHR 0x0A] @ ''- `door`: Door opened.'' @ [CHR 0x0A]"
  by (simp add: starts_with_def is_line_terminator_def)

lemma example_lines:
  "List.map_filter (\<lambda>line.
       case match_line line of
         None \<Rightarrow> None
       | Some (n, d) \<Rightarrow> Some \<lparr> enum_value = filter is_word n, enum_description = d \<rparr>)
     (split_lines ([CHR 0x0A] @ ''- `motion`: Motion detected.'' @ [CHR 0x0A] @ ''- `door`: Door opened.'' @ [CHR 0x0A]))
   = [\<lparr> enum_value = ''motion'', enum_description = ''Motion detected.'' \<rparr>,
      \<lparr> enum_value = ''door'', enum_description = ''Door opened.'' \<rparr>]"
  by (simp add: List.map_filter_def starts_with_def is_line_terminator_def is_word_def)




end
